theory Spec2Isabelle
  imports Complex_Main "HOL-Library.Multiset" "HOL-Library.Product_Lexorder"
begin

section \<open>Numbers\<close>

text \<open>
  The optimizer of \<^verbatim>\<open>seisflows/optimize/base.py\<close> computes with IEEE doubles. A double is
  modelled by the number it denotes: not-a-number, the two infinities, or a real. Rounding
  and overflow are not modelled, and the two zeros are one value (\<open>Fin 0\<close>, read as +0).
  Comparisons follow IEEE: every comparison with \<open>NaN\<close> is false.
\<close>

datatype fl = NaN | NInf | Fin real | PInf

datatype error = IOError | ValueError | IndexError | NameError | ZeroDivisionError

fun isnan :: "fl \<Rightarrow> bool" where
  "isnan NaN = True"
| "isnan _ = False"

fun fl_lt :: "fl \<Rightarrow> fl \<Rightarrow> bool" where
  "fl_lt (Fin a) (Fin b) = (a < b)"
| "fl_lt NInf (Fin b) = True"
| "fl_lt NInf PInf = True"
| "fl_lt (Fin a) PInf = True"
| "fl_lt _ _ = False"

fun fl_ge :: "fl \<Rightarrow> fl \<Rightarrow> bool" where
  "fl_ge NaN _ = False"
| "fl_ge _ NaN = False"
| "fl_ge a b = (\<not> fl_lt a b)"

fun fl_neg :: "fl \<Rightarrow> fl" where
  "fl_neg NaN = NaN"
| "fl_neg NInf = PInf"
| "fl_neg (Fin a) = Fin (- a)"
| "fl_neg PInf = NInf"

fun fl_abs :: "fl \<Rightarrow> fl" where
  "fl_abs NaN = NaN"
| "fl_abs NInf = PInf"
| "fl_abs (Fin a) = Fin \<bar>a\<bar>"
| "fl_abs PInf = PInf"

fun fl_add :: "fl \<Rightarrow> fl \<Rightarrow> fl" where
  "fl_add NaN _ = NaN"
| "fl_add _ NaN = NaN"
| "fl_add (Fin a) (Fin b) = Fin (a + b)"
| "fl_add PInf NInf = NaN"
| "fl_add NInf PInf = NaN"
| "fl_add PInf _ = PInf"
| "fl_add NInf _ = NInf"
| "fl_add (Fin a) b = b"

fun fl_mul :: "fl \<Rightarrow> fl \<Rightarrow> fl" where
  "fl_mul NaN _ = NaN"
| "fl_mul _ NaN = NaN"
| "fl_mul (Fin a) (Fin b) = Fin (a * b)"
| "fl_mul (Fin a) b = (if a = 0 then NaN else if 0 < a then b else fl_neg b)"
| "fl_mul a (Fin b) = (if b = 0 then NaN else if 0 < b then a else fl_neg a)"
| "fl_mul PInf b = b"
| "fl_mul NInf b = fl_neg b"

text \<open>
  Division of numpy scalars never raises: a zero divisor gives an infinity or \<open>NaN\<close>.
  Division of Python floats raises \<^verbatim>\<open>ZeroDivisionError\<close> on a zero divisor.
\<close>

fun np_div :: "fl \<Rightarrow> fl \<Rightarrow> fl" where
  "np_div NaN _ = NaN"
| "np_div _ NaN = NaN"
| "np_div (Fin a) (Fin b) =
     (if b = 0 then (if a = 0 then NaN else if 0 < a then PInf else NInf) else Fin (a / b))"
| "np_div (Fin a) b = Fin 0"
| "np_div a (Fin b) = (if 0 \<le> b then a else fl_neg a)"
| "np_div a b = NaN"

definition py_div :: "fl \<Rightarrow> fl \<Rightarrow> error + fl" where
  "py_div a b = (if b = Fin 0 then Inl ZeroDivisionError else Inr (np_div a b))"

text \<open>Truth value of a Python float: everything but zero is true.\<close>

definition truthy :: "fl \<Rightarrow> bool" where
  "truthy a = (a \<noteq> Fin 0)"

text \<open>
  Python's builtin \<^verbatim>\<open>max\<close> over an iterable: the first item, replaced by each later item
  that compares greater; \<^verbatim>\<open>ValueError\<close> on an empty iterable.
\<close>

fun py_max_loop :: "fl \<Rightarrow> fl list \<Rightarrow> fl" where
  "py_max_loop mx [] = mx"
| "py_max_loop mx (x # xs) = py_max_loop (if fl_lt mx x then x else mx) xs"

fun py_max :: "fl list \<Rightarrow> error + fl" where
  "py_max [] = Inl ValueError"
| "py_max (x # xs) = Inr (py_max_loop x xs)"

subsection \<open>Arrays\<close>

text \<open>
  A one-dimensional numpy array is a list. Elementwise addition broadcasts an array of
  length one and raises \<^verbatim>\<open>ValueError\<close> on any other mismatch of lengths; \<^verbatim>\<open>np.dot\<close>
  needs equal lengths.
\<close>

definition arr_scale :: "fl list \<Rightarrow> fl \<Rightarrow> fl list" where
  "arr_scale p a = map (\<lambda>v. fl_mul v a) p"

definition arr_add :: "fl list \<Rightarrow> fl list \<Rightarrow> error + fl list" where
  "arr_add a b =
     (if length a = length b then Inr (map2 fl_add a b)
      else if length a = 1 then Inr (map (fl_add (hd a)) b)
      else if length b = 1 then Inr (map (\<lambda>v. fl_add v (hd b)) a)
      else Inl ValueError)"

definition np_dot :: "fl list \<Rightarrow> fl list \<Rightarrow> error + fl" where
  "np_dot a b =
     (if length a = length b then Inr (foldl fl_add (Fin 0) (map2 fl_mul a b))
      else Inl ValueError)"

text \<open>
  \<^verbatim>\<open>argmin\<close> of a float array: the first \<open>NaN\<close> if there is one, else the first index of the
  least value. The loop keeps the current least value \<open>mp\<close> and its index, replaces them
  at every element that is not \<open>\<ge> mp\<close>, and stops at a \<open>NaN\<close>. \<^verbatim>\<open>min\<close> returns the value
  there. Both raise \<^verbatim>\<open>ValueError\<close> on an empty array.
\<close>

fun argmin_loop :: "fl \<Rightarrow> nat \<Rightarrow> nat \<Rightarrow> fl list \<Rightarrow> nat" where
  "argmin_loop mp ind i [] = ind"
| "argmin_loop mp ind i (v # vs) =
     (if isnan mp then ind
      else if \<not> fl_ge v mp then argmin_loop v i (Suc i) vs
      else argmin_loop mp ind (Suc i) vs)"

fun argmin :: "fl list \<Rightarrow> error + nat" where
  "argmin [] = Inl ValueError"
| "argmin (v # vs) = Inr (argmin_loop v 0 1 vs)"

fun np_min_loop :: "fl \<Rightarrow> fl list \<Rightarrow> fl" where
  "np_min_loop mp [] = mp"
| "np_min_loop mp (v # vs) =
     (if isnan mp then mp
      else if \<not> fl_ge v mp then np_min_loop v vs
      else np_min_loop mp vs)"

fun np_min :: "fl list \<Rightarrow> error + fl" where
  "np_min [] = Inl ValueError"
| "np_min (v # vs) = Inr (np_min_loop v vs)"

text \<open>
  \<^verbatim>\<open>argsort\<close> of an array returns the indices that sort it. It is numpy's sort of the default
  kind, outside this repository, and the methods below take it as the parameter
  \<open>argsort\<close>, a function from the array of keys to the array of indices. What numpy
  promises of the result is \<open>sorting_perm\<close>: the indices are a rearrangement of \<open>0..<n\<close> that
  puts the keys in ascending order, \<open>NaN\<close> last (\<open>sort_rank\<close> is that order). The default
  kind is not stable: the order in which the indices of equal keys come is not promised
  (the generic implementation sorts an array of at most 16 elements by straight
  insertion, which keeps that order, and partitions a longer one around the median of
  three, which does not). \<open>keeps_ties\<close> says that the indices of equal keys come in
  ascending order. The indices that numpy returns are in range, so that indexing an
  array of the same length with them (\<open>take_idx\<close>) raises nothing.
\<close>

fun sort_rank :: "fl \<Rightarrow> nat \<times> real" where
  "sort_rank NInf = (0, 0)"
| "sort_rank (Fin a) = (1, a)"
| "sort_rank PInf = (2, 0)"
| "sort_rank NaN = (3, 0)"

definition sorting_perm :: "fl list \<Rightarrow> nat list \<Rightarrow> bool" where
  "sorting_perm ks idx =
     (sort idx = [0..<length ks] \<and> sorted (map (\<lambda>i. sort_rank (ks ! i)) idx))"


text \<open>Indexing an array with an array of indices.\<close>

definition take_idx :: "'a list \<Rightarrow> nat list \<Rightarrow> 'a list" where
  "take_idx xs idx = map (\<lambda>i. xs ! i) idx"

section \<open>The store of named vectors and scalars\<close>

text \<open>
  Modelled from the spec: the helpers \<^verbatim>\<open>loadnpy\<close>, \<^verbatim>\<open>savenpy\<close>, \<^verbatim>\<open>loadtxt\<close>, \<^verbatim>\<open>savetxt\<close> and
  \<^verbatim>\<open>unix.rm\<close>, \<^verbatim>\<open>unix.mv\<close> (modules \<^verbatim>\<open>seisflows.tools\<close>) are the spec's Vector/Scalar Store:
  read, write, delete and rename of named arrays and scalars in the directory
  \<^verbatim>\<open>PATH.OPTIMIZE\<close>. The store has one slot for each name the optimizer uses; a slot holds
  a value or is missing. Reading or renaming a missing name fails (\<open>loadnpy\<close>, \<open>loadtxt\<close>
  and \<open>mv\<close> take the slot and return its value), deleting sets the slot to \<open>None\<close>,
  writing sets it to \<open>Some\<close> value and always succeeds.
\<close>

record store =
  m_new :: "fl list option"
  m_old :: "fl list option"
  m_try :: "fl list option"
  g_new :: "fl list option"
  g_old :: "fl list option"
  p_new :: "fl list option"
  p_old :: "fl list option"
  f_new :: "fl option"
  f_old :: "fl option"
  f_try :: "fl option"
  s_new :: "fl option"
  s_old :: "fl option"
  alpha :: "fl option"

definition loadnpy :: "fl list option \<Rightarrow> error + fl list" where
  "loadnpy slot = (case slot of None \<Rightarrow> Inl IOError | Some v \<Rightarrow> Inr v)"

definition loadtxt :: "fl option \<Rightarrow> error + fl" where
  "loadtxt slot = (case slot of None \<Rightarrow> Inl IOError | Some v \<Rightarrow> Inr v)"

definition mv :: "'a option \<Rightarrow> error + 'a" where
  "mv slot = (case slot of None \<Rightarrow> Inl IOError | Some v \<Rightarrow> Inr v)"

section \<open>Configuration and state\<close>

text \<open>
  \<open>par\<close> holds the fields of the global \<^verbatim>\<open>PAR\<close> that the modelled methods read (\<^verbatim>\<open>check\<close>
  gives the defaults \<^verbatim>\<open>STEPMAX = 10\<close>, \<^verbatim>\<open>STEPTHRESH = None\<close>, \<^verbatim>\<open>STEPINIT = 0.05\<close>,
  \<^verbatim>\<open>STEPOVERSHOOT = 0.\<close>). \<open>base\<close> holds the attributes of the optimizer object, the
  files of \<^verbatim>\<open>PATH.OPTIMIZE\<close>, and the trials written by the step writer. \<^verbatim>\<open>iter\<close> is set by
  the caller between outer iterations.
\<close>

record par =
  SCHEME :: string
  LINESEARCH :: string
  STEPMAX :: int
  STEPTHRESH :: "fl option"
  STEPINIT :: fl
  STEPOVERSHOOT :: fl

record base =
  iter :: int
  restart :: bool
  restart_count :: int
  search_history :: "(fl \<times> fl) list"
  step_count :: int
  isdone :: int
  isbest :: int
  isbrak :: int
  files :: store
  stepwriter :: "(fl \<times> fl) list"

section \<open>Exceptions\<close>

text \<open>
  A computation that may raise returns \<open>Inl\<close> of the exception. \<open>bind_err\<close> continues after
  a computation that returned. A method takes the object and returns it as it is when the
  method returns or raises, with the result or the exception: Python undoes nothing at a
  raise. \<open>attempt r self k\<close> raises the exception of \<open>r\<close> with the object \<open>self\<close> as it is at
  that point, or continues with the value of \<open>r\<close>.
\<close>

definition bind_err :: "error + 'a \<Rightarrow> ('a \<Rightarrow> error + 'b) \<Rightarrow> error + 'b" where
  "bind_err r k = (case r of Inl e \<Rightarrow> Inl e | Inr v \<Rightarrow> k v)"

definition attempt :: "error + 'a \<Rightarrow> base \<Rightarrow> ('a \<Rightarrow> base \<times> (error + 'b)) \<Rightarrow> base \<times> (error + 'b)" where
  "attempt r self k = (case r of Inl e \<Rightarrow> (self, Inl e) | Inr v \<Rightarrow> k v)"

section \<open>Line search utilities\<close>

text \<open>
  \<^verbatim>\<open>x, f = zip(*self.search_history)\<close> raises \<^verbatim>\<open>ValueError\<close> on an empty history. The sorted
  views index the steps and the objective values with the same \<^verbatim>\<open>abs(x).argsort()\<close>.
\<close>

definition step_lens :: "(fl list \<Rightarrow> nat list) \<Rightarrow> bool \<Rightarrow> base \<Rightarrow> error + fl list" where
  "step_lens argsort srt self =
     (if search_history self = [] then Inl ValueError
      else
        let x = map fst (search_history self);
            x_sorted = take_idx x (argsort (map fl_abs x))
        in if srt then Inr x_sorted else Inr x)"

definition func_vals :: "(fl list \<Rightarrow> nat list) \<Rightarrow> bool \<Rightarrow> base \<Rightarrow> error + fl list" where
  "func_vals argsort srt self =
     (if search_history self = [] then Inl ValueError
      else
        let x = map fst (search_history self);
            f = map snd (search_history self);
            f_sorted = take_idx f (argsort (map fl_abs x))
        in if srt then Inr f_sorted else Inr f)"

text \<open>
  \<^verbatim>\<open>step_init\<close>: the three scalars are Python floats, so the quotient raises on a zero
  \<^verbatim>\<open>s_old\<close>.
\<close>

definition step_init :: "base \<Rightarrow> error + fl" where
  "step_init self =
     bind_err (loadtxt (alpha (files self))) (\<lambda>alpha.
     bind_err (loadtxt (s_new (files self))) (\<lambda>s_new.
     bind_err (loadtxt (s_old (files self))) (\<lambda>s_old.
     bind_err (py_div s_new s_old) (\<lambda>s_ratio.
     Inr (fl_mul (fl_mul (Fin 2) s_ratio) alpha)))))"

section \<open>The optimizer's methods\<close>

text \<open>\<^verbatim>\<open>setup\<close>: of its effects only the two restart attributes are modelled.\<close>

definition setup_base :: "base \<Rightarrow> base" where
  "setup_base self = self\<lparr>restart := False, restart_count := 0\<rparr>"

text \<open>
  \<^verbatim>\<open>compute_direction\<close>. The objects \<^verbatim>\<open>self.NLCG\<close> and \<^verbatim>\<open>self.LBFGS\<close> are external; \<open>alg\<close> is
  what the call of the configured one returns (a direction and a restart flag) or
  raises on this call. With a scheme other than the three, \<^verbatim>\<open>p_new\<close> is unbound when it
  is saved.
\<close>

definition compute_direction :: "par \<Rightarrow> (error + fl list \<times> bool) \<Rightarrow> base \<Rightarrow> base \<times> (error + unit)" where
  "compute_direction PAR alg self =
     attempt (loadnpy (g_new (files self))) self (\<lambda>g.
     attempt (if SCHEME PAR = ''SD'' then Inr (Some (map fl_neg g), self)
              else if SCHEME PAR = ''NLCG'' then
                bind_err alg (\<lambda>(p, r). Inr (Some p, self\<lparr>restart := r\<rparr>))
              else if SCHEME PAR = ''LBFGS'' then
                bind_err alg (\<lambda>(p, r). Inr (Some p, self\<lparr>restart := r\<rparr>))
              else Inr (None, self)) self (\<lambda>(p_opt, self).
     let self = (if restart self then self\<lparr>restart_count := restart_count self + 1\<rparr> else self)
     in attempt (case p_opt of None \<Rightarrow> Inl NameError | Some p \<Rightarrow> Inr p) self (\<lambda>p.
     let self = self\<lparr>files := (files self)\<lparr>p_new := Some p\<rparr>\<rparr>
     in attempt (np_dot g p) self (\<lambda>s.
     (self\<lparr>files := (files self)\<lparr>s_new := Some s\<rparr>\<rparr>, Inr ())))))"

text \<open>
  \<^verbatim>\<open>initialize_search\<close>. The history and the flags are reset before the step length is
  chosen, so they stay reset when \<^verbatim>\<open>step_init\<close> raises. \<^verbatim>\<open>m_try\<close> is computed before
  either file is written.
\<close>

definition initialize_search :: "par \<Rightarrow> base \<Rightarrow> base \<times> (error + unit)" where
  "initialize_search PAR self =
     attempt (loadnpy (m_new (files self))) self (\<lambda>m.
     attempt (loadnpy (p_new (files self))) self (\<lambda>p.
     attempt (loadtxt (f_new (files self))) self (\<lambda>f.
     attempt (py_max (map fl_abs m)) self (\<lambda>norm_m.
     attempt (py_max (map fl_abs p)) self (\<lambda>norm_p.
     let p_ratio = np_div norm_m norm_p;
         self = self\<lparr>search_history := [(Fin 0, f)], step_count := 0,
                      isdone := 0, isbest := 0, isbrak := 0\<rparr>
     in attempt (if iter self = 1 then Inr (fl_mul p_ratio (STEPINIT PAR))
                 else if restart self then Inr (fl_mul p_ratio (STEPINIT PAR))
                 else if LINESEARCH PAR = ''Backtrack'' then Inr (Fin 1)
                 else step_init self) self (\<lambda>a.
     let a = (if truthy (STEPOVERSHOOT PAR) then fl_mul a (STEPOVERSHOOT PAR) else a);
         a = (case STEPTHRESH PAR of None \<Rightarrow> a
              | Some thresh \<Rightarrow>
                  if truthy thresh then
                    (if fl_lt (fl_mul p_ratio thresh) a \<and> 1 < iter self
                     then fl_mul p_ratio thresh else a)
                  else a)
     in attempt (arr_add m (arr_scale p a)) self (\<lambda>m_upd.
     let self = self\<lparr>files := (files self)\<lparr>m_try := Some m_upd\<rparr>\<rparr>;
         self = self\<lparr>files := (files self)\<lparr>alpha := Some a\<rparr>\<rparr>;
         self = self\<lparr>stepwriter := stepwriter self @ [(Fin 0, f)]\<rparr>
     in (self, Inr ()))))))))"

text \<open>
  \<^verbatim>\<open>search_status\<close> returns the pair \<^verbatim>\<open>(isdone, isbest)\<close>; \<open>x'\<close> and \<open>f'\<close> are its \<^verbatim>\<open>x_\<close> and \<^verbatim>\<open>f_\<close>. In
  \<^verbatim>\<open>any(f[1:] < f[0]) and (f[-2] < f[-1])\<close> the second operand is evaluated only when the
  first is true, and then \<open>f\<close>, which has the length of the history, has at least two
  elements, so \<^verbatim>\<open>f[-2]\<close> is in range.
\<close>

definition search_status :: "(fl list \<Rightarrow> nat list) \<Rightarrow> par \<Rightarrow> base \<Rightarrow> base \<times> (error + int \<times> int)" where
  "search_status argsort PAR self =
     attempt (loadtxt (alpha (files self))) self (\<lambda>x'.
     attempt (loadtxt (f_try (files self))) self (\<lambda>f'.
     attempt (if isnan f' then Inl ValueError else Inr ()) self (\<lambda>_.
     let self = self\<lparr>search_history := search_history self @ [(x', f')]\<rparr>;
         self = self\<lparr>step_count := step_count self + 1\<rparr>
     in attempt (step_lens argsort True self) self (\<lambda>x.
     attempt (func_vals argsort True self) self (\<lambda>f.
     attempt (func_vals argsort False self) self (\<lambda>vals.
     let self = (if list_all (\<lambda>v. fl_lt (last vals) v) (butlast vals)
                 then self\<lparr>isbest := 1\<rparr> else self);
         self =
          (if LINESEARCH PAR = ''Fixed'' then
             (if list_ex (\<lambda>v. fl_lt v (f ! 0)) (tl f) \<and> fl_lt (f ! (length f - 2)) (last f)
              then self\<lparr>isdone := 1\<rparr> else self)
           else if LINESEARCH PAR = ''Bracket'' \<or> iter self = 1 \<or> restart self then
             (if isbrak self \<noteq> 0 then self\<lparr>isdone := 1\<rparr>
              else if list_ex (\<lambda>v. fl_lt v (f ! 0)) (tl f) \<and>
                      fl_lt (f ! (length f - 2)) (last f)
              then self\<lparr>isbrak := 1\<rparr> else self)
           else if LINESEARCH PAR = ''Backtrack'' then
             (if list_ex (\<lambda>v. fl_lt v (f ! 0)) (tl f) then self\<lparr>isdone := 1\<rparr> else self)
           else self);
         self = self\<lparr>stepwriter := stepwriter self @ [(x', f')]\<rparr>;
         self = (if STEPMAX PAR \<le> step_count self then self\<lparr>isdone := - 1\<rparr> else self)
     in (self, Inr (isdone self, isbest self))))))))"

text \<open>
  \<^verbatim>\<open>finalize_search\<close>. \<^verbatim>\<open>f\<close> and \<^verbatim>\<open>x\<close> have the length of the history, so \<^verbatim>\<open>x[f.argmin()]\<close> is
  in range. Of the summary records written after the update only the failure of \<^verbatim>\<open>f[1]\<close>
  and \<^verbatim>\<open>x[1]\<close> on a history of one entry is modelled; their values go to the run logger.
\<close>

definition finalize_search :: "(fl list \<Rightarrow> nat list) \<Rightarrow> par \<Rightarrow> base \<Rightarrow> base \<times> (error + unit)" where
  "finalize_search argsort PAR self =
     attempt (loadnpy (m_new (files self))) self (\<lambda>m.
     attempt (loadnpy (g_new (files self))) self (\<lambda>g.
     attempt (loadnpy (p_new (files self))) self (\<lambda>p.
     attempt (loadtxt (s_new (files self))) self (\<lambda>s.
     attempt (step_lens argsort True self) self (\<lambda>x.
     attempt (func_vals argsort True self) self (\<lambda>f.
     let self = self\<lparr>files := (files self)\<lparr>alpha := None, m_try := None, f_try := None\<rparr>\<rparr>;
         self = (if 1 < iter self
                 then self\<lparr>files := (files self)\<lparr>m_old := None, f_old := None, g_old := None,
                                                  p_old := None, s_old := None\<rparr>\<rparr>
                 else self)
     in attempt (mv (m_new (files self))) self (\<lambda>v.
     let self = self\<lparr>files := (files self)\<lparr>m_new := None, m_old := Some v\<rparr>\<rparr>
     in attempt (mv (f_new (files self))) self (\<lambda>v.
     let self = self\<lparr>files := (files self)\<lparr>f_new := None, f_old := Some v\<rparr>\<rparr>
     in attempt (mv (g_new (files self))) self (\<lambda>v.
     let self = self\<lparr>files := (files self)\<lparr>g_new := None, g_old := Some v\<rparr>\<rparr>
     in attempt (mv (p_new (files self))) self (\<lambda>v.
     let self = self\<lparr>files := (files self)\<lparr>p_new := None, p_old := Some v\<rparr>\<rparr>
     in attempt (mv (s_new (files self))) self (\<lambda>v.
     let self = self\<lparr>files := (files self)\<lparr>s_new := None, s_old := Some v\<rparr>\<rparr>
     in attempt (argmin f) self (\<lambda>i.
     let a = x ! i;
         self = self\<lparr>files := (files self)\<lparr>alpha := Some a\<rparr>\<rparr>
     in attempt (arr_add m (arr_scale p a)) self (\<lambda>m_upd.
     let self = self\<lparr>files := (files self)\<lparr>m_new := Some m_upd\<rparr>\<rparr>
     in attempt (np_min f) self (\<lambda>f_min.
     let self = self\<lparr>files := (files self)\<lparr>f_new := Some f_min\<rparr>\<rparr>
     in attempt (if length f < 2 then Inl IndexError else Inr ()) self (\<lambda>_.
     (self, Inr ()))))))))))))))))"

section \<open>Histories and runs\<close>

text \<open>
  The keys of a history, and the history in the order of the sorted views (the two
  views are its columns when the indices are in range).
\<close>

definition step_keys :: "(fl \<times> fl) list \<Rightarrow> fl list" where
  "step_keys h = map fl_abs (map fst h)"

definition sorted_view :: "(fl list \<Rightarrow> nat list) \<Rightarrow> (fl \<times> fl) list \<Rightarrow> (fl \<times> fl) list" where
  "sorted_view argsort h = take_idx h (argsort (step_keys h))"

text \<open>
  \<open>sorts argsort h\<close>: on the keys of the history \<open>h\<close> the sort returns a sorting permutation,
  as numpy's does on every array. \<open>chronological argsort h\<close>: it leaves the indices of equal
  keys in ascending order there.
\<close>

definition sorts :: "(fl list \<Rightarrow> nat list) \<Rightarrow> (fl \<times> fl) list \<Rightarrow> bool" where
  "sorts argsort h = sorting_perm (step_keys h) (argsort (step_keys h))"


text \<open>
  Two particular sorts. \<open>stable_argsort\<close> is the stable sort by straight insertion.
  \<open>numpy_order\<close> is what numpy's default kind returns on the 17 keys \<open>0, 1, \<dots>, 1\<close>: with
  more than 16 elements the array is partitioned once around the median of its first,
  middle and last elements. \<open>tie_argsort\<close> returns \<open>numpy_order\<close> on these keys, which are
  the keys of the history of \<open>H17\<close> below, and is the insertion sort on every other array.
\<close>

definition stable_argsort :: "fl list \<Rightarrow> nat list" where
  "stable_argsort ks = map snd (sort_key (\<lambda>e. sort_rank (fst e)) (zip ks [0..<length ks]))"



subsection \<open>Runs\<close>

text \<open>
  Between two calls of \<^verbatim>\<open>search_status\<close> the caller writes the next trial step to \<^verbatim>\<open>alpha\<close>
  (\<^verbatim>\<open>compute_step\<close>) and the external evaluator writes the objective to \<^verbatim>\<open>f_try\<close>: \<open>evaluate\<close>.
  \<open>run_trials\<close> is a line search after \<^verbatim>\<open>initialize_search\<close>: one \<open>evaluate\<close> and one
  \<^verbatim>\<open>search_status\<close> for each trial, until a call raises; it returns what each call returned.
\<close>

definition evaluate :: "fl \<Rightarrow> fl \<Rightarrow> base \<Rightarrow> base" where
  "evaluate a v self = self\<lparr>files := (files self)\<lparr>alpha := Some a, f_try := Some v\<rparr>\<rparr>"

fun run_trials :: "(fl list \<Rightarrow> nat list) \<Rightarrow> par \<Rightarrow> base \<Rightarrow> (fl \<times> fl) list \<Rightarrow>
    base \<times> (error + int \<times> int) list" where
  "run_trials argsort PAR self [] = (self, [])"
| "run_trials argsort PAR self ((a, v) # ts) =
     (case search_status argsort PAR (evaluate a v self) of
        (self', Inl e) \<Rightarrow> (self', [Inl e])
      | (self', Inr r) \<Rightarrow>
          (case run_trials argsort PAR self' ts of (self'', rs) \<Rightarrow> (self'', Inr r # rs)))"

text \<open>
  A run of the optimizer is a list of calls: the methods, and \<open>External\<close> for the caller
  and the evaluator replacing the files and setting \<^verbatim>\<open>iter\<close>. In a call of
  \<^verbatim>\<open>compute_direction\<close> the direction algorithm reports a restart when it is called (the
  gradient was read and the scheme is NLCG or LBFGS), returns, and its flag is true;
  \<open>restarts\<close> counts these calls along a run.
\<close>

datatype call =
    ComputeDirection "error + fl list \<times> bool"
  | InitializeSearch
  | SearchStatus
  | FinalizeSearch
  | External store int

fun perform :: "(fl list \<Rightarrow> nat list) \<Rightarrow> par \<Rightarrow> base \<Rightarrow> call \<Rightarrow> base" where
  "perform argsort PAR self (ComputeDirection alg) = fst (compute_direction PAR alg self)"
| "perform argsort PAR self InitializeSearch = fst (initialize_search PAR self)"
| "perform argsort PAR self SearchStatus = fst (search_status argsort PAR self)"
| "perform argsort PAR self FinalizeSearch = fst (finalize_search argsort PAR self)"
| "perform argsort PAR self (External st n) = self\<lparr>files := st, iter := n\<rparr>"

fun run :: "(fl list \<Rightarrow> nat list) \<Rightarrow> par \<Rightarrow> base \<Rightarrow> call list \<Rightarrow> base" where
  "run argsort PAR self [] = self"
| "run argsort PAR self (c # cs) = run argsort PAR (perform argsort PAR self c) cs"

fun reports_restart :: "par \<Rightarrow> base \<Rightarrow> call \<Rightarrow> bool" where
  "reports_restart PAR self (ComputeDirection alg) =
     (g_new (files self) \<noteq> None \<and> (SCHEME PAR = ''NLCG'' \<or> SCHEME PAR = ''LBFGS'') \<and>
      (case alg of Inl e \<Rightarrow> False | Inr (p, r) \<Rightarrow> r))"
| "reports_restart PAR self c = False"

fun restarts :: "(fl list \<Rightarrow> nat list) \<Rightarrow> par \<Rightarrow> base \<Rightarrow> call list \<Rightarrow> nat" where
  "restarts argsort PAR self [] = 0"
| "restarts argsort PAR self (c # cs) =
     (if reports_restart PAR self c then 1 else 0) +
     restarts argsort PAR (perform argsort PAR self c) cs"

subsection \<open>Auxiliary notions\<close>

text \<open>
  Used in the statements and proofs below: \<open>adjust_step\<close> is the effect of the two optional
  adjustments of \<^verbatim>\<open>initialize_search\<close> (\<^verbatim>\<open>STEPOVERSHOOT\<close>, then \<^verbatim>\<open>STEPTHRESH\<close>) on the chosen step
  \<open>a\<close>; without a direction algorithm the restart flag is never set; \<open>keeps\<close> relates two
  objects with the same restart attributes.
\<close>

definition adjust_step :: "par \<Rightarrow> int \<Rightarrow> fl \<Rightarrow> fl \<Rightarrow> fl" where
  "adjust_step PAR it p_ratio a =
     (let b = (if truthy (STEPOVERSHOOT PAR) then fl_mul a (STEPOVERSHOOT PAR) else a)
      in case STEPTHRESH PAR of None \<Rightarrow> b
         | Some thresh \<Rightarrow>
             if truthy thresh then
               (if fl_lt (fl_mul p_ratio thresh) b \<and> 1 < it then fl_mul p_ratio thresh else b)
             else b)"

definition no_alg_no_restart :: "par \<Rightarrow> base \<Rightarrow> bool" where
  "no_alg_no_restart PAR self = (SCHEME PAR = ''NLCG'' \<or> SCHEME PAR = ''LBFGS'' \<or> \<not> restart self)"

definition keeps :: "base \<Rightarrow> base \<Rightarrow> bool" where
  "keeps s0 s = (restart s = restart s0 \<and> restart_count s = restart_count s0)"

subsection \<open>Example objects\<close>

text \<open>
  Configurations and objects for the witnesses. \<open>R0\<close> is an object at iteration 1 before a
  line search and \<open>B0\<close> the same after \<^verbatim>\<open>initialize_search\<close>; \<open>P1\<close>, \<open>K1\<close> and \<open>K2\<close> are objects
  during a line search from \<open>B0\<close>; \<open>E1\<close> and \<open>E2\<close> are objects at the end of a line search;
  \<open>H17\<close> has a history of 17 entries whose 16 trials have the same step. The witnesses
  call the methods with \<open>stable_argsort\<close>; but for \<open>H1\<close> and \<open>H17\<close> the histories have no two
  entries of equal \<open>|step|\<close>, and every sorting permutation gives the same sorted views.
\<close>

definition default_par :: par where
  "default_par = \<lparr>SCHEME = ''LBFGS'', LINESEARCH = ''Backtrack'', STEPMAX = 10,
     STEPTHRESH = None, STEPINIT = Fin (5/100), STEPOVERSHOOT = Fin 0\<rparr>"

definition bracket_par :: par where
  "bracket_par = default_par\<lparr>SCHEME := ''NLCG'', LINESEARCH := ''Bracket''\<rparr>"

definition fixed_par :: par where
  "fixed_par = default_par\<lparr>SCHEME := ''NLCG'', LINESEARCH := ''Fixed''\<rparr>"

definition short_par :: par where
  "short_par = bracket_par\<lparr>STEPMAX := 2\<rparr>"

definition one_par :: par where
  "one_par = default_par\<lparr>STEPMAX := 1\<rparr>"

definition three_par :: par where
  "three_par = bracket_par\<lparr>STEPMAX := 3\<rparr>"

definition example_files :: store where
  "example_files = \<lparr>m_new = Some [Fin 1, Fin 2], m_old = None, m_try = Some [Fin 2, Fin 1],
     g_new = Some [Fin (-1), Fin 1], g_old = None, p_new = Some [Fin 1, Fin (-1)], p_old = None,
     f_new = Some (Fin 10), f_old = None, f_try = Some (Fin 8),
     s_new = Some (Fin (-2)), s_old = None, alpha = Some (Fin (2/5))\<rparr>"


definition E1 :: base where
  "E1 = \<lparr>iter = 1, restart = False, restart_count = 0,
     search_history = [(Fin 0, Fin 10), (Fin 1, Fin 12), (Fin (2/5), Fin 8)],
     step_count = 2, isdone = 1, isbest = 1, isbrak = 0,
     files = example_files, stepwriter = [(Fin 0, Fin 10), (Fin 1, Fin 12), (Fin (2/5), Fin 8)]\<rparr>"

definition E2 :: base where
  "E2 = \<lparr>iter = 1, restart = False, restart_count = 0,
     search_history = [(Fin 0, Fin 10), (Fin 1, Fin 12), (Fin (1/2), Fin 10)],
     step_count = 2, isdone = 0, isbest = 0, isbrak = 0,
     files = example_files, stepwriter = [(Fin 0, Fin 10), (Fin 1, Fin 12), (Fin (1/2), Fin 10)]\<rparr>"

definition R0 :: base where
  "R0 = \<lparr>iter = 1, restart = False, restart_count = 0, search_history = [],
     step_count = 0, isdone = 0, isbest = 0, isbrak = 0,
     files = example_files\<lparr>m_try := None, f_try := None, alpha := None\<rparr>,
     stepwriter = []\<rparr>"

definition B0 :: base where
  "B0 = \<lparr>iter = 1, restart = False, restart_count = 0,
     search_history = [(Fin 0, Fin 10)],
     step_count = 0, isdone = 0, isbest = 0, isbrak = 0,
     files = example_files\<lparr>m_try := Some [Fin (11/10), Fin (19/10)], f_try := None,
                            alpha := Some (Fin (1/10))\<rparr>,
     stepwriter = [(Fin 0, Fin 10)]\<rparr>"

definition B2 :: base where
  "B2 = evaluate (Fin 1) (Fin 8) (B0\<lparr>iter := 2\<rparr>)"

definition P1 :: base where
  "P1 = B0\<lparr>search_history := [(Fin 0, Fin 10), (Fin 1, Fin 5)], step_count := 1, isbest := 1,
         stepwriter := [(Fin 0, Fin 10), (Fin 1, Fin 5)]\<rparr>"

definition K1 :: base where
  "K1 = evaluate (Fin 2) (Fin 7)
     (B0\<lparr>search_history := [(Fin 0, Fin 10), (Fin 1, Fin 5)], step_count := 1, isbest := 1,
         stepwriter := [(Fin 0, Fin 10), (Fin 1, Fin 5)]\<rparr>)"

definition K2 :: base where
  "K2 = evaluate (Fin (3/2)) (Fin 4)
     (B0\<lparr>search_history := [(Fin 0, Fin 10), (Fin 1, Fin 5), (Fin 2, Fin 7)], step_count := 2,
         isbest := 1, isbrak := 1,
         stepwriter := [(Fin 0, Fin 10), (Fin 1, Fin 5), (Fin 2, Fin 7)]\<rparr>)"

definition W2 :: base where
  "W2 = R0\<lparr>iter := 2, files := example_files\<lparr>s_old := Some (Fin (- 4))\<rparr>\<rparr>"


definition direction_calls :: "call list" where
  "direction_calls =
     [ComputeDirection (Inr ([Fin 1, Fin (- 1)], True)), InitializeSearch,
      ComputeDirection (Inr ([Fin 1, Fin (- 1)], False)),
      ComputeDirection (Inl ValueError),
      ComputeDirection (Inr ([Fin 1, Fin (- 1)], True))]"

section \<open>Properties\<close>

subsection \<open>The sorted views\<close>

lemma map_insort_key: "map g (insort_key (\<lambda>x. f (g x)) x xs) = insort_key f (g x) (map g xs)"
  by (induction xs) auto

lemma map_sort_key: "map g (sort_key (\<lambda>x. f (g x)) xs) = sort_key f (map g xs)"
  by (induction xs) (auto simp: map_insort_key)

lemma insort_key_cong_set:
  "f x = f' x \<Longrightarrow> (\<And>y. y \<in> set xs \<Longrightarrow> f y = f' y) \<Longrightarrow> insort_key f x xs = insort_key f' x xs"
  by (induction xs) auto

lemma sort_key_cong_set:
  "(\<And>y. y \<in> set xs \<Longrightarrow> f y = f' y) \<Longrightarrow> sort_key f xs = sort_key f' xs"
proof (induction xs)
  case Nil
  then show ?case by simp
next
  case (Cons a xs)
  then have "sort_key f xs = sort_key f' xs" by simp
  moreover have "insort_key f a (sort_key f' xs) = insort_key f' a (sort_key f' xs)"
    by (rule insort_key_cong_set) (use Cons.prems in auto)
  ultimately show ?case by simp
qed

lemma sort_rank_inj [simp]: "(sort_rank a = sort_rank b) = (a = b)"
  by (cases a; cases b) simp_all



text \<open>The indices of a sorting permutation are those of the array, each once.\<close>

lemma sorting_perm_indices:
  assumes "sorting_perm ks idx"
  shows "mset idx = mset [0..<length ks]" "set idx = {0..<length ks}" "length idx = length ks"
    "distinct idx"
proof -
  have s: "sort idx = [0..<length ks]"
    using assms by (simp add: sorting_perm_def)
  have "mset (sort idx) = mset idx" by simp
  then show m: "mset idx = mset [0..<length ks]" by (simp add: s)
  show "set idx = {0..<length ks}"
    using mset_eq_setD [OF m] by simp
  show "length idx = length ks"
    using mset_eq_length [OF m] by simp
  show "distinct idx"
    using mset_eq_imp_distinct_iff [OF m] by simp
qed

lemma sorts_indices:
  assumes "sorts argsort h"
  shows "mset (argsort (step_keys h)) = mset [0..<length h]"
    "set (argsort (step_keys h)) = {0..<length h}" "distinct (argsort (step_keys h))"
  using sorting_perm_indices [of "step_keys h" "argsort (step_keys h)"] assms
  by (simp_all add: sorts_def step_keys_def)

lemma length_step_keys [simp]: "length (step_keys h) = length h"
  by (simp add: step_keys_def)

lemma nth_step_keys: "i < length h \<Longrightarrow> step_keys h ! i = fl_abs (fst (h ! i))"
  by (simp add: step_keys_def)

lemma take_idx_map: "\<forall>i\<in>set idx. i < length xs \<Longrightarrow> take_idx (map u xs) idx = map u (take_idx xs idx)"
  by (simp add: take_idx_def)

lemma mset_take_idx:
  assumes "mset idx = mset [0..<length xs]"
  shows "mset (take_idx xs idx) = mset xs"
proof -
  have "mset (take_idx xs idx) = image_mset (\<lambda>i. xs ! i) (mset idx)"
    by (simp add: take_idx_def)
  also have "\<dots> = mset (map (\<lambda>i. xs ! i) [0..<length xs])"
    by (simp add: assms)
  also have "\<dots> = mset xs"
    by (simp add: map_nth)
  finally show ?thesis .
qed

text \<open>
  With a sorting permutation the sorted views are the columns of \<open>sorted_view\<close>, a
  rearrangement of the history in ascending order of \<open>|step|\<close>.
\<close>

lemma sorted_views:
  assumes "search_history self \<noteq> []"
    and "sorts argsort (search_history self)"
  shows "step_lens argsort True self = Inr (map fst (sorted_view argsort (search_history self)))"
    "func_vals argsort True self = Inr (map snd (sorted_view argsort (search_history self)))"
proof -
  let ?h = "search_history self"
  have r: "\<forall>i\<in>set (argsort (step_keys ?h)). i < length ?h"
    using sorts_indices(2) [OF assms(2)] by simp
  show "step_lens argsort True self = Inr (map fst (sorted_view argsort ?h))"
    using assms(1) take_idx_map [OF r, of fst]
    by (simp add: step_lens_def sorted_view_def step_keys_def)
  show "func_vals argsort True self = Inr (map snd (sorted_view argsort ?h))"
    using assms(1) take_idx_map [OF r, of snd]
    by (simp add: func_vals_def sorted_view_def step_keys_def)
qed

lemma sorted_view_mset:
  assumes "sorts argsort h"
  shows "mset (sorted_view argsort h) = mset h"
  using sorts_indices(1) [OF assms] by (simp add: sorted_view_def mset_take_idx)

lemma set_sorted_view:
  assumes "sorts argsort h"
  shows "set (sorted_view argsort h) = set h"
  using sorted_view_mset [OF assms] by (rule mset_eq_setD)

lemma length_sorted_view:
  assumes "sorts argsort h"
  shows "length (sorted_view argsort h) = length h"
  using sorted_view_mset [OF assms] by (rule mset_eq_length)

lemma sorted_view_sorted:
  assumes "sorts argsort h"
  shows "sorted (map (\<lambda>e. sort_rank (fl_abs (fst e))) (sorted_view argsort h))"
proof -
  let ?idx = "argsort (step_keys h)"
  have "map (\<lambda>e. sort_rank (fl_abs (fst e))) (sorted_view argsort h) =
        map (\<lambda>i. sort_rank (step_keys h ! i)) ?idx"
    using sorts_indices(2) [OF assms]
    by (simp add: sorted_view_def take_idx_def nth_step_keys)
  then show ?thesis
    using assms by (simp add: sorts_def sorting_perm_def)
qed

lemma sorted_view_ascending:
  assumes "sorts argsort h"
    and "i \<le> j" "j < length h"
  shows "sort_rank (fl_abs (fst (sorted_view argsort h ! i))) \<le>
         sort_rank (fl_abs (fst (sorted_view argsort h ! j)))"
proof -
  let ?k = "\<lambda>e. sort_rank (fl_abs (fst e))"
  let ?s = "sorted_view argsort h"
  have l: "length ?s = length h" using assms(1) by (rule length_sorted_view)
  have "map ?k ?s ! i \<le> map ?k ?s ! j"
    using sorted_view_sorted [OF assms(1)] assms(2,3) l by (intro sorted_nth_mono) auto
  then show ?thesis
    using assms(2,3) l by simp
qed


text \<open>The insertion sort is a sorting permutation and keeps ties.\<close>

lemma stable_argsort_sorted:
  "map (\<lambda>i. sort_rank (ks ! i)) (stable_argsort ks) =
   map (\<lambda>e. sort_rank (fst e)) (sort_key (\<lambda>e. sort_rank (fst e)) (zip ks [0..<length ks]))"
proof -
  let ?zs = "zip ks [0..<length ks]"
  have "\<forall>e\<in>set (sort_key (\<lambda>e. sort_rank (fst e)) ?zs). ks ! snd e = fst e"
    by (auto simp: set_zip)
  then show ?thesis
    by (simp add: stable_argsort_def comp_def)
qed

lemma sorting_perm_stable: "sorting_perm ks (stable_argsort ks)"
proof -
  let ?zs = "zip ks [0..<length ks]"
  let ?k = "\<lambda>e. sort_rank (fst e)"
  have "map snd ?zs = [0..<length ks]"
    by (simp add: map_snd_zip)
  moreover have "mset (stable_argsort ks) = mset (map snd ?zs)"
    unfolding stable_argsort_def mset_map mset_sort by (rule refl)
  ultimately have "mset [0..<length ks] = mset (stable_argsort ks)"
    by (simp only:)
  then have "sort (stable_argsort ks) = [0..<length ks]"
    by (rule properties_for_sort) simp
  moreover have "sorted (map (\<lambda>i. sort_rank (ks ! i)) (stable_argsort ks))"
    by (simp add: stable_argsort_sorted)
  ultimately show ?thesis
    by (simp add: sorting_perm_def)
qed

lemma sorts_stable: "sorts stable_argsort h"
  by (simp add: sorts_def sorting_perm_stable)







text \<open>On keys without ties there is one sorting permutation.\<close>

lemma sorting_perm_unique:
  assumes "sorting_perm ks idx" "sorting_perm ks idx'" "distinct ks"
  shows "idx = idx'"
proof -
  let ?k = "\<lambda>i. sort_rank (ks ! i)"
  have inj: "inj_on ?k {0..<length ks}"
    using assms(3) by (auto simp: inj_on_def nth_eq_iff_index_eq)
  have s: "set idx = {0..<length ks}" "set idx' = {0..<length ks}"
    using sorting_perm_indices(2) [OF assms(1)] sorting_perm_indices(2) [OF assms(2)]
    by simp_all
  have d: "distinct idx" "distinct idx'"
    using sorting_perm_indices(4) [OF assms(1)] sorting_perm_indices(4) [OF assms(2)]
    by simp_all
  have "map ?k idx = map ?k idx'"
  proof (rule sorted_distinct_set_unique)
    show "sorted (map ?k idx)" "sorted (map ?k idx')"
      using assms(1,2) by (simp_all add: sorting_perm_def)
    show "distinct (map ?k idx)" "distinct (map ?k idx')"
      using d inj by (simp_all add: distinct_map s)
    show "set (map ?k idx) = set (map ?k idx')"
      by (simp add: s)
  qed
  then show ?thesis
    by (rule map_inj_on) (simp add: s inj)
qed

lemma sorted_view_unique:
  assumes "sorts argsort h" "distinct (step_keys h)"
  shows "sorted_view argsort h = sorted_view stable_argsort h"
proof -
  have "argsort (step_keys h) = stable_argsort (step_keys h)"
    using assms(1) sorting_perm_stable assms(2) unfolding sorts_def by (rule sorting_perm_unique)
  then show ?thesis by (simp add: sorted_view_def)
qed




subsection \<open>Comparisons, \<open>argmin\<close> and \<open>min\<close>\<close>

lemma fl_ge_iff: "fl_ge a b = (\<not> isnan a \<and> \<not> isnan b \<and> \<not> fl_lt a b)"
  by (cases a; cases b) simp_all

lemma fl_lt_trans: "fl_lt a b \<Longrightarrow> fl_lt b c \<Longrightarrow> fl_lt a c"
  by (cases a; cases b; cases c) simp_all

lemma fl_lt_total: "\<not> isnan a \<Longrightarrow> \<not> isnan b \<Longrightarrow> \<not> fl_lt a b \<Longrightarrow> \<not> fl_lt b a \<Longrightarrow> a = b"
  by (cases a; cases b) simp_all

lemma fl_ge_trans: "fl_ge a b \<Longrightarrow> fl_ge b c \<Longrightarrow> fl_ge a c"
  by (cases a; cases b; cases c) simp_all

lemma fl_ge_refl: "\<not> isnan a \<Longrightarrow> fl_ge a a"
  by (cases a) simp_all

lemma not_fl_ge: "\<not> isnan a \<Longrightarrow> \<not> isnan b \<Longrightarrow> \<not> fl_ge a b \<Longrightarrow> fl_ge b a"
  by (cases a; cases b) simp_all

lemma argmin_loop_index:
  "ind < length pre \<Longrightarrow> pre ! ind = mp \<Longrightarrow>
   argmin_loop mp ind (length pre) vs < length pre + length vs \<and>
   (pre @ vs) ! argmin_loop mp ind (length pre) vs = np_min_loop mp vs"
proof (induction vs arbitrary: mp ind pre)
  case Nil
  then show ?case by simp
next
  case (Cons v vs)
  show ?case
  proof (cases "isnan mp")
    case True
    with Cons.prems show ?thesis by (simp add: nth_append)
  next
    case False
    show ?thesis
    proof (cases "fl_ge v mp")
      case True
      have "argmin_loop mp ind (length (pre @ [v])) vs < length (pre @ [v]) + length vs \<and>
            ((pre @ [v]) @ vs) ! argmin_loop mp ind (length (pre @ [v])) vs = np_min_loop mp vs"
        by (rule Cons.IH) (use Cons.prems in \<open>simp_all add: nth_append\<close>)
      with True False show ?thesis by simp
    next
      case nge: False
      have "argmin_loop v (length pre) (length (pre @ [v])) vs < length (pre @ [v]) + length vs \<and>
            ((pre @ [v]) @ vs) ! argmin_loop v (length pre) (length (pre @ [v])) vs = np_min_loop v vs"
        by (rule Cons.IH) simp_all
      with nge False show ?thesis by simp
    qed
  qed
qed

lemma argmin_np_min:
  assumes "f \<noteq> []"
  shows "\<exists>i. argmin f = Inr i \<and> i < length f \<and> np_min f = Inr (f ! i)"
proof -
  obtain v vs where f: "f = v # vs" using assms by (cases f) auto
  have "argmin_loop v 0 (length [v]) vs < length [v] + length vs \<and>
        ([v] @ vs) ! argmin_loop v 0 (length [v]) vs = np_min_loop v vs"
    by (rule argmin_loop_index) simp_all
  then show ?thesis by (simp add: f)
qed

lemma np_min_loop_least:
  "\<not> isnan mp \<Longrightarrow> \<forall>v\<in>set vs. \<not> isnan v \<Longrightarrow>
   fl_ge mp (np_min_loop mp vs) \<and> (\<forall>v\<in>set vs. fl_ge v (np_min_loop mp vs))"
proof (induction vs arbitrary: mp)
  case Nil
  then show ?case by (simp add: fl_ge_refl)
next
  case (Cons v vs)
  show ?case
  proof (cases "fl_ge v mp")
    case True
    have ih: "fl_ge mp (np_min_loop mp vs) \<and> (\<forall>u\<in>set vs. fl_ge u (np_min_loop mp vs))"
      by (rule Cons.IH) (use Cons.prems in auto)
    then have "fl_ge v (np_min_loop mp vs)"
      using True fl_ge_trans by blast
    with ih True Cons.prems show ?thesis by simp
  next
    case False
    have nv: "\<not> isnan v" using Cons.prems by simp
    have ih: "fl_ge v (np_min_loop v vs) \<and> (\<forall>u\<in>set vs. fl_ge u (np_min_loop v vs))"
      by (rule Cons.IH) (use Cons.prems in auto)
    have "fl_ge mp v"
      using False nv Cons.prems(1) by (rule_tac not_fl_ge)
    then have "fl_ge mp (np_min_loop v vs)"
      using ih fl_ge_trans by blast
    with ih False Cons.prems show ?thesis by simp
  qed
qed

lemma np_min_least:
  assumes "np_min f = Inr fm" "\<forall>v\<in>set f. \<not> isnan v"
  shows "\<forall>v\<in>set f. fl_ge v fm"
proof -
  obtain v vs where f: "f = v # vs" using assms(1) by (cases f) auto
  show ?thesis
    using np_min_loop_least [of v vs] assms by (simp add: f)
qed

lemma fl_ge_below: "fl_ge a b \<Longrightarrow> \<not> fl_ge c b \<Longrightarrow> \<not> isnan c \<Longrightarrow> fl_ge a c"
  by (cases a; cases b; cases c) simp_all

text \<open>No element before the index that \<^verbatim>\<open>argmin\<close> returns has the value found there.\<close>

lemma argmin_loop_first:
  "ind < length pre \<Longrightarrow> pre ! ind = mp \<Longrightarrow> \<forall>j<ind. pre ! j \<noteq> mp \<Longrightarrow>
   \<not> isnan mp \<longrightarrow> (\<forall>j<length pre. fl_ge (pre ! j) mp) \<Longrightarrow>
   \<forall>j<argmin_loop mp ind (length pre) vs.
      (pre @ vs) ! j \<noteq> (pre @ vs) ! argmin_loop mp ind (length pre) vs"
proof (induction vs arbitrary: mp ind pre)
  case Nil
  then show ?case by simp
next
  case (Cons v vs)
  show ?case
  proof (cases "isnan mp")
    case True
    with Cons.prems show ?thesis by (simp add: nth_append)
  next
    case False
    then have ge: "\<forall>j<length pre. fl_ge (pre ! j) mp" using Cons.prems(4) by simp
    show ?thesis
    proof (cases "fl_ge v mp")
      case True
      have "\<forall>j<argmin_loop mp ind (length (pre @ [v])) vs.
          ((pre @ [v]) @ vs) ! j \<noteq> ((pre @ [v]) @ vs) ! argmin_loop mp ind (length (pre @ [v])) vs"
      proof (rule Cons.IH)
        show "ind < length (pre @ [v])" using Cons.prems(1) by simp
        show "(pre @ [v]) ! ind = mp" using Cons.prems(1,2) by (simp add: nth_append)
        show "\<forall>j<ind. (pre @ [v]) ! j \<noteq> mp" using Cons.prems(1,3) by (simp add: nth_append)
        show "\<not> isnan mp \<longrightarrow> (\<forall>j<length (pre @ [v]). fl_ge ((pre @ [v]) ! j) mp)"
          using ge True by (simp add: nth_append less_Suc_eq)
      qed
      with True False show ?thesis by simp
    next
      case nge: False
      have "\<forall>j<argmin_loop v (length pre) (length (pre @ [v])) vs.
          ((pre @ [v]) @ vs) ! j \<noteq> ((pre @ [v]) @ vs) ! argmin_loop v (length pre) (length (pre @ [v])) vs"
      proof (rule Cons.IH)
        show "length pre < length (pre @ [v])" by simp
        show "(pre @ [v]) ! length pre = v" by simp
        show "\<forall>j<length pre. (pre @ [v]) ! j \<noteq> v"
          using ge nge by (auto simp: nth_append)
        show "\<not> isnan v \<longrightarrow> (\<forall>j<length (pre @ [v]). fl_ge ((pre @ [v]) ! j) v)"
          using ge nge by (auto simp: nth_append less_Suc_eq fl_ge_refl intro: fl_ge_below)
      qed
      with nge False show ?thesis by simp
    qed
  qed
qed

lemma argmin_first:
  assumes "argmin f = Inr i" "j < i"
  shows "f ! j \<noteq> f ! i"
proof -
  obtain v vs where f: "f = v # vs" using assms(1) by (cases f) auto
  have "\<forall>j<argmin_loop v 0 (length [v]) vs.
      ([v] @ vs) ! j \<noteq> ([v] @ vs) ! argmin_loop v 0 (length [v]) vs"
    by (rule argmin_loop_first) (simp_all add: fl_ge_refl)
  then show ?thesis using assms by (simp add: f)
qed

text \<open>\<^verbatim>\<open>min\<close> of an array with a \<open>NaN\<close> is \<open>NaN\<close>.\<close>

lemma np_min_loop_nan:
  "isnan mp \<or> (\<exists>v\<in>set vs. isnan v) \<Longrightarrow> isnan (np_min_loop mp vs)"
proof (induction vs arbitrary: mp)
  case Nil
  then show ?case by simp
next
  case (Cons v vs)
  have "fl_ge v mp \<Longrightarrow> \<not> isnan v" by (cases v; cases mp) simp_all
  then show ?case
    using Cons.prems by (auto intro: Cons.IH)
qed

lemma np_min_nan:
  assumes "np_min f = Inr fm" "\<exists>v\<in>set f. isnan v"
  shows "fm = NaN"
proof -
  obtain v vs where f: "f = v # vs" using assms(1) by (cases f) auto
  have "isnan (np_min_loop v vs)"
    by (rule np_min_loop_nan) (use assms(2) f in auto)
  then show ?thesis
    using assms(1) by (cases fm) (simp_all add: f)
qed

lemma rank_zero: "sort_rank (fl_abs a) \<le> sort_rank (fl_abs (Fin 0)) \<Longrightarrow> a = Fin 0"
  by (cases a) simp_all

subsection \<open>Finalizing a line search\<close>

lemma attempt_Inr [simp]: "attempt (Inr v) self k = k v"
  by (simp add: attempt_def)

lemma attempt_Inl [simp]: "attempt (Inl e) self k = (self, Inl e)"
  by (simp add: attempt_def)

lemma load_Some [simp]: "loadnpy (Some v) = Inr v" "loadtxt (Some u) = Inr u" "mv (Some w) = Inr w"
  by (simp_all add: loadnpy_def loadtxt_def mv_def)

lemma load_None [simp]: "loadnpy None = Inl IOError" "loadtxt None = Inl IOError" "mv None = Inl IOError"
  by (simp_all add: loadnpy_def loadtxt_def mv_def)

lemma finalize_search_result:
  assumes "m_new (files self) = Some m" "g_new (files self) = Some g"
    "p_new (files self) = Some p" "s_new (files self) = Some s"
    "f_new (files self) = Some f0"
    "step_lens argsort True self = Inr x" "func_vals argsort True self = Inr f"
    "argmin f = Inr i" "np_min f = Inr fm" "arr_add m (arr_scale p (x ! i)) = Inr mu"
  shows "finalize_search argsort PAR self =
    (self\<lparr>files := (files self)\<lparr>alpha := Some (x ! i), m_try := None, f_try := None,
         m_old := Some m, f_old := Some f0, g_old := Some g, p_old := Some p, s_old := Some s,
         g_new := None, p_new := None, s_new := None,
         m_new := Some mu, f_new := Some fm\<rparr>\<rparr>,
     if length f < 2 then Inl IndexError else Inr ())"
  using assms
  by (simp add: finalize_search_def Let_def)

lemma arr_add_same_length: "length m = length p \<Longrightarrow> arr_add m (arr_scale p a) = Inr (map2 fl_add m (arr_scale p a))"
  by (simp add: arr_add_def arr_scale_def)

text \<open>
  C1. Let \<^verbatim>\<open>argsort\<close> return a sorting permutation of the keys of the history. With the
  four vectors and scalars it reads and \<^verbatim>\<open>f_new\<close> in the store, a history that is not
  empty, and \<^verbatim>\<open>m_new\<close> and \<^verbatim>\<open>p_new\<close> of one length, \<^verbatim>\<open>finalize_search\<close> takes the index \<open>i\<close>
  that \<^verbatim>\<open>argmin\<close> gives on the sorted objective values. The step \<open>x ! i\<close> and the objective
  \<open>f ! i\<close> are those of one entry of the history, \<open>f ! i\<close> is \<^verbatim>\<open>f.min()\<close>, and when no
  objective of the history is \<open>NaN\<close> every objective of the history, the baseline
  included, is at least \<open>f ! i\<close>. The method writes \<open>x ! i\<close> to \<^verbatim>\<open>alpha\<close>,
  \<open>m_new + p_new * x ! i\<close> to \<^verbatim>\<open>m_new\<close> and \<open>f ! i\<close> to \<^verbatim>\<open>f_new\<close>; it returns when the history
  has at least two entries (with one entry it raises after these writes).
\<close>

theorem finalize_search_minimum:
  assumes "m_new (files self) = Some m" "g_new (files self) = Some g"
    "p_new (files self) = Some p" "s_new (files self) = Some s" "f_new (files self) = Some f0"
    and "search_history self \<noteq> []" and "length m = length p"
    and "sorts argsort (search_history self)"
  shows "\<exists>x f i. step_lens argsort True self = Inr x \<and> func_vals argsort True self = Inr f
      \<and> argmin f = Inr i \<and> np_min f = Inr (f ! i)
      \<and> (x ! i, f ! i) \<in> set (search_history self)
      \<and> ((\<forall>e\<in>set (search_history self). \<not> isnan (snd e)) \<longrightarrow>
           (\<forall>e\<in>set (search_history self). fl_ge (snd e) (f ! i)))
      \<and> alpha (files (fst (finalize_search argsort PAR self))) = Some (x ! i)
      \<and> m_new (files (fst (finalize_search argsort PAR self))) =
          Some (map2 fl_add m (arr_scale p (x ! i)))
      \<and> f_new (files (fst (finalize_search argsort PAR self))) = Some (f ! i)
      \<and> snd (finalize_search argsort PAR self) =
          (if length (search_history self) < 2 then Inl IndexError else Inr ())"
proof -
  let ?s = "sorted_view argsort (search_history self)"
  let ?x = "map fst ?s" and ?f = "map snd ?s"
  have views: "step_lens argsort True self = Inr ?x" "func_vals argsort True self = Inr ?f"
    using assms(6,8) by (rule sorted_views)+
  have set: "set ?s = set (search_history self)"
    using assms(8) by (rule set_sorted_view)
  have len: "length ?f = length (search_history self)"
    using length_sorted_view [OF assms(8)] by simp
  then have "?f \<noteq> []" using assms(6) by (metis length_0_conv)
  then obtain i where i: "argmin ?f = Inr i" "i < length ?f" "np_min ?f = Inr (?f ! i)"
    using argmin_np_min by blast
  have "(?x ! i, ?f ! i) = ?s ! i" using i(2) by simp
  then have mem: "(?x ! i, ?f ! i) \<in> set (search_history self)"
    using i(2) set by (metis length_map nth_mem)
  have least: "\<forall>e\<in>set (search_history self). fl_ge (snd e) (?f ! i)"
    if "\<forall>e\<in>set (search_history self). \<not> isnan (snd e)"
  proof -
    have "\<forall>v\<in>set ?f. fl_ge v (?f ! i)"
      using i(3) that set by (intro np_min_least) auto
    then show ?thesis using set by auto
  qed
  have add: "arr_add m (arr_scale p (?x ! i)) = Inr (map2 fl_add m (arr_scale p (?x ! i)))"
    using assms(7) by (rule arr_add_same_length)
  have res: "finalize_search argsort PAR self =
    (self\<lparr>files := (files self)\<lparr>alpha := Some (?x ! i), m_try := None, f_try := None,
         m_old := Some m, f_old := Some f0, g_old := Some g, p_old := Some p, s_old := Some s,
         g_new := None, p_new := None, s_new := None,
         m_new := Some (map2 fl_add m (arr_scale p (?x ! i))), f_new := Some (?f ! i)\<rparr>\<rparr>,
     if length ?f < 2 then Inl IndexError else Inr ())"
    using assms(1-5) views i(1,3) add by (rule finalize_search_result)
  have "alpha (files (fst (finalize_search argsort PAR self))) = Some (?x ! i)"
    "m_new (files (fst (finalize_search argsort PAR self))) =
       Some (map2 fl_add m (arr_scale p (?x ! i)))"
    "f_new (files (fst (finalize_search argsort PAR self))) = Some (?f ! i)"
    "snd (finalize_search argsort PAR self) =
          (if length (search_history self) < 2 then Inl IndexError else Inr ())"
    by (simp_all add: res len del: length_map)
  with views i mem least show ?thesis by blast
qed

lemmas eval_views = step_lens_def func_vals_def stable_argsort_def take_idx_def upt_rec

theorem finalize_search_minimum_witness:
  "m_new (files E1) = Some [Fin 1, Fin 2] \<and> g_new (files E1) = Some [Fin (-1), Fin 1]
   \<and> p_new (files E1) = Some [Fin 1, Fin (-1)] \<and> s_new (files E1) = Some (Fin (-2))
   \<and> f_new (files E1) = Some (Fin 10) \<and> search_history E1 \<noteq> []
   \<and> length [Fin 1, Fin 2] = length [Fin 1, Fin (-1)]
   \<and> sorts stable_argsort (search_history E1)
   \<and> alpha (files (fst (finalize_search stable_argsort default_par E1))) = Some (Fin (2/5))
   \<and> m_new (files (fst (finalize_search stable_argsort default_par E1))) =
        Some [Fin (7/5), Fin (8/5)]
   \<and> f_new (files (fst (finalize_search stable_argsort default_par E1))) = Some (Fin 8)
   \<and> (\<exists>x f i. step_lens stable_argsort True E1 = Inr x \<and> func_vals stable_argsort True E1 = Inr f
      \<and> argmin f = Inr i \<and> np_min f = Inr (f ! i)
      \<and> (x ! i, f ! i) \<in> set (search_history E1)
      \<and> ((\<forall>e\<in>set (search_history E1). \<not> isnan (snd e)) \<longrightarrow>
           (\<forall>e\<in>set (search_history E1). fl_ge (snd e) (f ! i)))
      \<and> alpha (files (fst (finalize_search stable_argsort default_par E1))) = Some (x ! i)
      \<and> m_new (files (fst (finalize_search stable_argsort default_par E1))) =
          Some (map2 fl_add [Fin 1, Fin 2] (arr_scale [Fin 1, Fin (-1)] (x ! i)))
      \<and> f_new (files (fst (finalize_search stable_argsort default_par E1))) = Some (f ! i)
      \<and> snd (finalize_search stable_argsort default_par E1) =
          (if length (search_history E1) < 2 then Inl IndexError else Inr ()))"
proof -
  have h: "m_new (files E1) = Some [Fin 1, Fin 2]" "g_new (files E1) = Some [Fin (-1), Fin 1]"
    "p_new (files E1) = Some [Fin 1, Fin (-1)]" "s_new (files E1) = Some (Fin (-2))"
    "f_new (files E1) = Some (Fin 10)" "search_history E1 \<noteq> []"
    "length [Fin 1, Fin 2] = length [Fin 1, Fin (-1)]"
    "sorts stable_argsort (search_history E1)"
    by (simp_all add: E1_def example_files_def sorts_stable)
  have v: "step_lens stable_argsort True E1 = Inr [Fin 0, Fin (2/5), Fin 1]"
    "func_vals stable_argsort True E1 = Inr [Fin 10, Fin 8, Fin 12]"
    by (simp_all add: E1_def eval_views)
  have e: "alpha (files (fst (finalize_search stable_argsort default_par E1))) = Some (Fin (2/5))"
    "m_new (files (fst (finalize_search stable_argsort default_par E1))) =
       Some [Fin (7/5), Fin (8/5)]"
    "f_new (files (fst (finalize_search stable_argsort default_par E1))) = Some (Fin 8)"
    by (simp_all add: finalize_search_def v Let_def arr_add_def arr_scale_def)
       (simp_all add: E1_def example_files_def)
  show ?thesis
    using h e finalize_search_minimum [OF h, of default_par] by blast
qed

lemma arr_add_zero_step:
  "length m = length p \<Longrightarrow> \<forall>v\<in>set m. \<exists>a. v = Fin a \<Longrightarrow> \<forall>v\<in>set p. \<exists>a. v = Fin a \<Longrightarrow>
   map2 fl_add m (arr_scale p (Fin 0)) = m"
proof (induction m p rule: list_induct2)
  case Nil
  then show ?case by (simp add: arr_scale_def)
next
  case (Cons x xs y ys)
  then show ?case by (auto simp: arr_scale_def)
qed

text \<open>
  C10. Let \<^verbatim>\<open>argsort\<close> return a sorting permutation of the keys of the history. Let the
  history be the baseline \<open>(0, f0)\<close> followed by trials none of which has a \<open>NaN\<close> objective
  (\<^verbatim>\<open>search_status\<close> appends no other) or an objective strictly below \<open>f0\<close>, and let \<^verbatim>\<open>f_new\<close>
  still hold \<open>f0\<close>. Then \<^verbatim>\<open>finalize_search\<close> writes the step \<open>0\<close> to \<^verbatim>\<open>alpha\<close>, \<open>m_new + p_new * 0\<close>
  to \<^verbatim>\<open>m_new\<close>, which is \<open>m_new\<close> itself when both vectors are finite, and \<open>f0\<close> to \<^verbatim>\<open>f_new\<close>. (The
  entry that \<^verbatim>\<open>argmin\<close> selects is the baseline or a trial of step \<open>0\<close> and objective \<open>f0\<close>
  sorted before it.)
\<close>

theorem finalize_search_no_improvement:
  assumes "m_new (files self) = Some m" "g_new (files self) = Some g"
    "p_new (files self) = Some p" "s_new (files self) = Some s" "f_new (files self) = Some f0"
    and "search_history self = (Fin 0, f0) # ts" and "length m = length p"
    and "\<forall>e\<in>set ts. \<not> isnan (snd e) \<and> \<not> fl_lt (snd e) f0"
    and "sorts argsort (search_history self)"
  shows "alpha (files (fst (finalize_search argsort PAR self))) = Some (Fin 0)
     \<and> m_new (files (fst (finalize_search argsort PAR self))) =
         Some (map2 fl_add m (arr_scale p (Fin 0)))
     \<and> f_new (files (fst (finalize_search argsort PAR self))) = Some f0
     \<and> ((\<forall>v\<in>set m. \<exists>a. v = Fin a) \<and> (\<forall>v\<in>set p. \<exists>a. v = Fin a) \<longrightarrow>
          m_new (files (fst (finalize_search argsort PAR self))) = Some m)"
proof -
  let ?h = "search_history self"
  let ?s = "sorted_view argsort ?h"
  let ?x = "map fst ?s" and ?f = "map snd ?s"
  have ne: "?h \<noteq> []" using assms(6) by simp
  have views: "step_lens argsort True self = Inr ?x" "func_vals argsort True self = Inr ?f"
    using ne assms(9) by (rule sorted_views)+
  have set: "set ?s = set ?h"
    using assms(9) by (rule set_sorted_view)
  have len: "length ?s = length ?h"
    using assms(9) by (rule length_sorted_view)
  have "?f \<noteq> []" using len ne by (metis length_0_conv length_map)
  then obtain i where i: "argmin ?f = Inr i" "i < length ?f" "np_min ?f = Inr (?f ! i)"
    using argmin_np_min by blast
  have "(Fin 0, f0) \<in> set ?s" using set assms(6) by simp
  then obtain b where b: "b < length ?s" "?s ! b = (Fin 0, f0)"
    by (auto simp: in_set_conv_nth)
  have fb: "?f ! b = f0" using b by simp
  have val: "?f ! i = f0"
  proof (cases "isnan f0")
    case True
    then have "\<exists>v\<in>set ?f. isnan v" using fb b(1) by (metis length_map nth_mem)
    then have "?f ! i = NaN" using i(3) by (rule np_min_nan [rotated])
    then show ?thesis using True by (cases f0) simp_all
  next
    case False
    have nn: "\<forall>v\<in>set ?f. \<not> isnan v"
      using False assms(6,8) set by auto
    have "\<forall>v\<in>set ?f. fl_ge v (?f ! i)"
      using i(3) nn by (rule np_min_least)
    moreover have "f0 \<in> set ?f" using fb b(1) by (metis length_map nth_mem)
    ultimately have "fl_ge f0 (?f ! i)" by blast
    then have 1: "\<not> fl_lt f0 (?f ! i)" by (simp add: fl_ge_iff)
    have "?s ! i \<in> set ?h" using i(2) set by (metis length_map nth_mem)
    then have "?f ! i = f0 \<or> \<not> fl_lt (?f ! i) f0"
      using i(2) assms(6,8) by auto
    moreover have "\<not> isnan (?f ! i)" using nn i(2) by (metis nth_mem)
    ultimately show ?thesis using 1 False fl_lt_total by blast
  qed
  have "\<not> b < i"
    using argmin_first [OF i(1), of b] fb val by auto
  then have "i \<le> b" by simp
  then have "sort_rank (fl_abs (fst (?s ! i))) \<le> sort_rank (fl_abs (fst (?s ! b)))"
    using b(1) len by (intro sorted_view_ascending assms(9)) simp_all
  then have "fst (?s ! i) = Fin 0"
    using b(2) by (intro rank_zero) simp
  then have step: "?x ! i = Fin 0" using i(2) by simp
  have am: "np_min ?f = Inr f0" using i(3) val by simp
  have add: "arr_add m (arr_scale p (?x ! i)) = Inr (map2 fl_add m (arr_scale p (Fin 0)))"
    using assms(7) by (simp add: step arr_add_same_length del: length_map)
  have res: "finalize_search argsort PAR self =
    (self\<lparr>files := (files self)\<lparr>alpha := Some (?x ! i), m_try := None, f_try := None,
         m_old := Some m, f_old := Some f0, g_old := Some g, p_old := Some p, s_old := Some s,
         g_new := None, p_new := None, s_new := None,
         m_new := Some (map2 fl_add m (arr_scale p (Fin 0))), f_new := Some f0\<rparr>\<rparr>,
     if length ?f < 2 then Inl IndexError else Inr ())"
    using assms(1-5) views i(1) am add by (rule finalize_search_result)
  have "alpha (files (fst (finalize_search argsort PAR self))) = Some (Fin 0)"
    "m_new (files (fst (finalize_search argsort PAR self))) =
       Some (map2 fl_add m (arr_scale p (Fin 0)))"
    "f_new (files (fst (finalize_search argsort PAR self))) = Some f0"
    by (simp_all add: res step)
  then show ?thesis
    using arr_add_zero_step [OF assms(7)] by simp
qed

theorem finalize_search_no_improvement_witness:
  "m_new (files E2) = Some [Fin 1, Fin 2] \<and> g_new (files E2) = Some [Fin (-1), Fin 1]
   \<and> p_new (files E2) = Some [Fin 1, Fin (-1)] \<and> s_new (files E2) = Some (Fin (-2))
   \<and> f_new (files E2) = Some (Fin 10)
   \<and> search_history E2 = (Fin 0, Fin 10) # [(Fin 1, Fin 12), (Fin (1/2), Fin 10)]
   \<and> length [Fin 1, Fin 2] = length [Fin 1, Fin (-1)]
   \<and> \<not> isnan (Fin 12) \<and> \<not> fl_lt (Fin 12) (Fin 10)
   \<and> \<not> isnan (Fin 10) \<and> \<not> fl_lt (Fin 10) (Fin 10)
   \<and> sorts stable_argsort (search_history E2)
   \<and> alpha (files (fst (finalize_search stable_argsort default_par E2))) = Some (Fin 0)
   \<and> m_new (files (fst (finalize_search stable_argsort default_par E2))) = Some [Fin 1, Fin 2]
   \<and> f_new (files (fst (finalize_search stable_argsort default_par E2))) = Some (Fin 10)"
proof -
  have h: "m_new (files E2) = Some [Fin 1, Fin 2]" "g_new (files E2) = Some [Fin (-1), Fin 1]"
    "p_new (files E2) = Some [Fin 1, Fin (-1)]" "s_new (files E2) = Some (Fin (-2))"
    "f_new (files E2) = Some (Fin 10)"
    "search_history E2 = (Fin 0, Fin 10) # [(Fin 1, Fin 12), (Fin (1/2), Fin 10)]"
    "length [Fin 1, Fin 2] = length [Fin 1, Fin (-1)]"
    "\<forall>e\<in>set [(Fin 1, Fin 12), (Fin (1/2), Fin 10)]. \<not> isnan (snd e) \<and> \<not> fl_lt (snd e) (Fin 10)"
    "sorts stable_argsort (search_history E2)"
    by (simp_all add: E2_def example_files_def sorts_stable)
  have fin: "\<forall>v\<in>set [Fin 1, Fin 2]. \<exists>a. v = Fin a" "\<forall>v\<in>set [Fin 1, Fin (-1)]. \<exists>a. v = Fin a"
    by simp_all
  have "alpha (files (fst (finalize_search stable_argsort default_par E2))) = Some (Fin 0)
   \<and> m_new (files (fst (finalize_search stable_argsort default_par E2))) = Some [Fin 1, Fin 2]
   \<and> f_new (files (fst (finalize_search stable_argsort default_par E2))) = Some (Fin 10)"
    using fin finalize_search_no_improvement [OF h, of default_par] by blast
  then show ?thesis
    using h(1-7,9) by simp
qed

subsection \<open>The status of a line search\<close>

lemma search_status_summary:
  assumes "alpha (files self) = Some a" "f_try (files self) = Some v" "\<not> isnan v"
  shows "\<exists>self'. search_status argsort PAR self = (self', Inr (isdone self', isbest self'))
    \<and> search_history self' = search_history self @ [(a, v)]
    \<and> step_count self' = step_count self + 1
    \<and> files self' = files self \<and> iter self' = iter self \<and> restart self' = restart self
    \<and> restart_count self' = restart_count self
    \<and> stepwriter self' = stepwriter self @ [(a, v)]
    \<and> isbest self' =
        (if list_all (\<lambda>u. fl_lt v u) (map snd (search_history self)) then 1 else isbest self)
    \<and> isdone self' =
        (let f = take_idx (map snd (search_history self @ [(a, v)]))
                   (argsort (step_keys (search_history self @ [(a, v)]))) in
         if STEPMAX PAR \<le> step_count self + 1 then - 1
         else if LINESEARCH PAR = ''Fixed'' then
           (if list_ex (\<lambda>u. fl_lt u (f ! 0)) (tl f) \<and> fl_lt (f ! (length f - 2)) (last f)
            then 1 else isdone self)
         else if LINESEARCH PAR = ''Bracket'' \<or> iter self = 1 \<or> restart self then
           (if isbrak self \<noteq> 0 then 1 else isdone self)
         else if LINESEARCH PAR = ''Backtrack'' then
           (if list_ex (\<lambda>u. fl_lt u (f ! 0)) (tl f) then 1 else isdone self)
         else isdone self)
    \<and> isbrak self' =
        (let f = take_idx (map snd (search_history self @ [(a, v)]))
                   (argsort (step_keys (search_history self @ [(a, v)]))) in
         if LINESEARCH PAR \<noteq> ''Fixed'' \<and>
            (LINESEARCH PAR = ''Bracket'' \<or> iter self = 1 \<or> restart self) \<and> isbrak self = 0 \<and>
            list_ex (\<lambda>u. fl_lt u (f ! 0)) (tl f) \<and> fl_lt (f ! (length f - 2)) (last f)
         then 1 else isbrak self)"
  using assms
  by (simp add: search_status_def Let_def step_lens_def func_vals_def step_keys_def)

text \<open>
  C3. When \<^verbatim>\<open>f_try\<close> holds \<open>NaN\<close>, \<^verbatim>\<open>search_status\<close> raises and leaves the whole object, so the
  history and \<^verbatim>\<open>step_count\<close>, as it was. The exception is the \<^verbatim>\<open>ValueError\<close> of the
  \<^verbatim>\<open>isnan\<close> test (the spec's \<open>InvalidObjective\<close>) whenever \<^verbatim>\<open>alpha\<close>, which is read first, is in
  the store.
\<close>

theorem search_status_nan:
  assumes "f_try (files self) = Some NaN"
  shows "fst (search_status argsort PAR self) = self
     \<and> (\<exists>e. snd (search_status argsort PAR self) = Inl e)
     \<and> (alpha (files self) \<noteq> None \<longrightarrow> snd (search_status argsort PAR self) = Inl ValueError)"
  using assms by (cases "alpha (files self)") (simp_all add: search_status_def)

theorem search_status_nan_witness:
  "f_try (files (evaluate (Fin 1) NaN B0)) = Some NaN
   \<and> alpha (files (evaluate (Fin 1) NaN B0)) \<noteq> None
   \<and> search_status stable_argsort default_par (evaluate (Fin 1) NaN B0) = (evaluate (Fin 1) NaN B0, Inl ValueError)
   \<and> search_history (fst (search_status stable_argsort default_par (evaluate (Fin 1) NaN B0))) = [(Fin 0, Fin 10)]
   \<and> step_count (fst (search_status stable_argsort default_par (evaluate (Fin 1) NaN B0))) = 0"
proof -
  have h: "f_try (files (evaluate (Fin 1) NaN B0)) = Some NaN"
    by (simp add: evaluate_def)
  have a: "alpha (files (evaluate (Fin 1) NaN B0)) \<noteq> None"
    by (simp add: evaluate_def)
  have "search_status stable_argsort default_par (evaluate (Fin 1) NaN B0) = (evaluate (Fin 1) NaN B0, Inl ValueError)"
    using search_status_nan [OF h, of stable_argsort default_par] a by (simp add: prod_eq_iff)
  moreover have "search_history (evaluate (Fin 1) NaN B0) = [(Fin 0, Fin 10)]"
    "step_count (evaluate (Fin 1) NaN B0) = 0"
    by (simp_all add: evaluate_def B0_def)
  ultimately show ?thesis using h a by simp
qed

lemma evaluate_simps [simp]:
  "alpha (files (evaluate a v self)) = Some a" "f_try (files (evaluate a v self)) = Some v"
  "search_history (evaluate a v self) = search_history self"
  "step_count (evaluate a v self) = step_count self"
  "isdone (evaluate a v self) = isdone self" "isbest (evaluate a v self) = isbest self"
  "isbrak (evaluate a v self) = isbrak self" "iter (evaluate a v self) = iter self"
  "restart (evaluate a v self) = restart self"
  "restart_count (evaluate a v self) = restart_count self"
  by (simp_all add: evaluate_def)

lemma run_trials_results:
  assumes "\<forall>t\<in>set ts. \<not> isnan (snd t)"
    and "isdone self = 0 \<or> isdone self = 1 \<or> (isdone self = - 1 \<and> STEPMAX PAR \<le> step_count self)"
  shows "length (snd (run_trials argsort PAR self ts)) = length ts \<and>
    (\<forall>k<length ts. \<exists>d b. snd (run_trials argsort PAR self ts) ! k = Inr (d, b) \<and>
        (d = 0 \<or> d = 1 \<or> d = - 1) \<and> (d = - 1 \<longleftrightarrow> STEPMAX PAR \<le> step_count self + int k + 1))"
  using assms
proof (induction ts arbitrary: self)
  case Nil
  then show ?case by simp
next
  case (Cons t ts)
  obtain a v where t: "t = (a, v)" by (cases t)
  have nv: "\<not> isnan v" using Cons.prems(1) t by simp
  obtain self' where s: "search_status argsort PAR (evaluate a v self) = (self', Inr (isdone self', isbest self'))"
    and c: "step_count self' = step_count self + 1"
    and d: "isdone self' =
        (let f = take_idx (map snd (search_history (evaluate a v self) @ [(a, v)]))
                   (argsort (step_keys (search_history (evaluate a v self) @ [(a, v)]))) in
         if STEPMAX PAR \<le> step_count (evaluate a v self) + 1 then - 1
         else if LINESEARCH PAR = ''Fixed'' then
           (if list_ex (\<lambda>u. fl_lt u (f ! 0)) (tl f) \<and> fl_lt (f ! (length f - 2)) (last f)
            then 1 else isdone (evaluate a v self))
         else if LINESEARCH PAR = ''Bracket'' \<or> iter (evaluate a v self) = 1 \<or> restart (evaluate a v self) then
           (if isbrak (evaluate a v self) \<noteq> 0 then 1 else isdone (evaluate a v self))
         else if LINESEARCH PAR = ''Backtrack'' then
           (if list_ex (\<lambda>u. fl_lt u (f ! 0)) (tl f) then 1 else isdone (evaluate a v self))
         else isdone (evaluate a v self))"
    using search_status_summary [of "evaluate a v self" a v argsort PAR] nv by auto
  have d1: "isdone self' = - 1 \<longleftrightarrow> STEPMAX PAR \<le> step_count self + 1"
    using d Cons.prems(2) by (auto simp: Let_def split: if_splits)
  have d2: "isdone self' = 0 \<or> isdone self' = 1 \<or> isdone self' = - 1"
    using d Cons.prems(2) by (auto simp: Let_def split: if_splits)
  have inv: "isdone self' = 0 \<or> isdone self' = 1 \<or> (isdone self' = - 1 \<and> STEPMAX PAR \<le> step_count self')"
    using d1 d2 c by auto
  have ih: "length (snd (run_trials argsort PAR self' ts)) = length ts \<and>
    (\<forall>k<length ts. \<exists>d b. snd (run_trials argsort PAR self' ts) ! k = Inr (d, b) \<and>
        (d = 0 \<or> d = 1 \<or> d = - 1) \<and> (d = - 1 \<longleftrightarrow> STEPMAX PAR \<le> step_count self' + int k + 1))"
    by (rule Cons.IH) (use Cons.prems(1) inv in auto)
  have r: "snd (run_trials argsort PAR self (t # ts)) = Inr (isdone self', isbest self') # snd (run_trials argsort PAR self' ts)"
    by (simp add: t s split: prod.splits)
  show ?case
  proof (intro conjI allI impI)
    show "length (snd (run_trials argsort PAR self (t # ts))) = length (t # ts)"
      using r ih by simp
  next
    fix k assume k: "k < length (t # ts)"
    show "\<exists>d b. snd (run_trials argsort PAR self (t # ts)) ! k = Inr (d, b) \<and>
        (d = 0 \<or> d = 1 \<or> d = - 1) \<and> (d = - 1 \<longleftrightarrow> STEPMAX PAR \<le> step_count self + int k + 1)"
    proof (cases k)
      case 0
      then show ?thesis using r d1 d2 by simp
    next
      case (Suc j)
      then have "j < length ts" using k by simp
      then obtain d' b' where "snd (run_trials argsort PAR self' ts) ! j = Inr (d', b')"
        "d' = 0 \<or> d' = 1 \<or> d' = - 1" "d' = - 1 \<longleftrightarrow> STEPMAX PAR \<le> step_count self' + int j + 1"
        using ih by blast
      then show ?thesis using r Suc c by simp
    qed
  qed
qed

lemma initialize_search_resets:
  assumes "initialize_search PAR s = (s', Inr ())"
  shows "step_count s' = 0 \<and> isdone s' = 0 \<and> isbest s' = 0 \<and> isbrak s' = 0 \<and>
     (\<exists>f. f_new (files s) = Some f \<and> search_history s' = [(Fin 0, f)])"
  using assms
  by (auto simp: initialize_search_def attempt_def Let_def loadnpy_def loadtxt_def
           split: sum.splits option.splits)

lemma initialize_R0: "initialize_search short_par R0 = (B0, Inr ())"
  by (simp add: initialize_search_def R0_def B0_def short_par_def bracket_par_def default_par_def
      example_files_def Let_def truthy_def arr_add_def arr_scale_def)

text \<open>
  C2. A line search starts with \<^verbatim>\<open>initialize_search\<close>; each trial writes a step and an
  objective that is not \<open>NaN\<close> and calls \<^verbatim>\<open>search_status\<close>. With as many trials as
  \<^verbatim>\<open>STEPMAX\<close>, every call returns, every call before the last returns \<^verbatim>\<open>isdone\<close> 0 or 1 (0
  unless the strategy's test was satisfied), and the last call returns \<^verbatim>\<open>isdone = -1\<close>, for
  every strategy and whatever the strategy's test says.
\<close>

theorem stepmax_enforced:
  assumes "initialize_search PAR self0 = (self, Inr ())"
    and "\<forall>t\<in>set ts. \<not> isnan (snd t)" and "int (length ts) = STEPMAX PAR"
  shows "length (snd (run_trials argsort PAR self ts)) = length ts \<and>
    (\<forall>k<length ts. \<exists>d b. snd (run_trials argsort PAR self ts) ! k = Inr (d, b) \<and>
        (if Suc k = length ts then d = - 1 else d = 0 \<or> d = 1))"
proof -
  have z: "step_count self = 0" "isdone self = 0"
    using initialize_search_resets [OF assms(1)] by simp_all
  have r: "length (snd (run_trials argsort PAR self ts)) = length ts \<and>
    (\<forall>k<length ts. \<exists>d b. snd (run_trials argsort PAR self ts) ! k = Inr (d, b) \<and>
        (d = 0 \<or> d = 1 \<or> d = - 1) \<and> (d = - 1 \<longleftrightarrow> STEPMAX PAR \<le> step_count self + int k + 1))"
    using assms(2) z(2) by (intro run_trials_results) auto
  show ?thesis
  proof (intro conjI allI impI)
    show "length (snd (run_trials argsort PAR self ts)) = length ts" using r by simp
  next
    fix k assume k: "k < length ts"
    then obtain d b where d: "snd (run_trials argsort PAR self ts) ! k = Inr (d, b)"
      "d = 0 \<or> d = 1 \<or> d = - 1" "d = - 1 \<longleftrightarrow> STEPMAX PAR \<le> step_count self + int k + 1"
      using r by blast
    have "d = - 1 \<longleftrightarrow> Suc k = length ts"
      using d(3) z(1) k assms(3) by auto
    then show "\<exists>d b. snd (run_trials argsort PAR self ts) ! k = Inr (d, b) \<and>
        (if Suc k = length ts then d = - 1 else d = 0 \<or> d = 1)"
      using d(1,2) by auto
  qed
qed

lemmas eval_status = search_status_def Let_def eval_views evaluate_def B0_def bracket_par_def
  fixed_par_def short_par_def default_par_def example_files_def

theorem stepmax_enforced_witness:
  "initialize_search short_par R0 = (B0, Inr ())
   \<and> \<not> isnan (Fin 12) \<and> \<not> isnan (Fin 11)
   \<and> int (length [(Fin (1/10), Fin 12), (Fin (1/20), Fin 11)]) = STEPMAX short_par
   \<and> snd (run_trials stable_argsort short_par B0 [(Fin (1/10), Fin 12), (Fin (1/20), Fin 11)]) =
        [Inr (0, 0), Inr (- 1, 0)]
   \<and> length (snd (run_trials stable_argsort short_par B0 [(Fin (1/10), Fin 12), (Fin (1/20), Fin 11)])) =
        length [(Fin (1/10), Fin 12), (Fin (1/20), Fin 11)]"
proof -
  have h: "initialize_search short_par R0 = (B0, Inr ())"
    "\<forall>t\<in>set [(Fin (1/10), Fin 12), (Fin (1/20), Fin 11)]. \<not> isnan (snd t)"
    "int (length [(Fin (1/10), Fin 12), (Fin (1/20), Fin 11)]) = STEPMAX short_par"
    by (simp_all add: initialize_R0) (simp add: short_par_def)
  have e: "snd (run_trials stable_argsort short_par B0 [(Fin (1/10), Fin 12), (Fin (1/20), Fin 11)]) = [Inr (0, 0), Inr (- 1, 0)]"
    by (simp add: eval_status)
  show ?thesis
    using h(1,3) e stepmax_enforced [OF h, of stable_argsort] by simp
qed

text \<open>
  C9. A call of \<^verbatim>\<open>search_status\<close> that brings \<^verbatim>\<open>step_count\<close> to \<^verbatim>\<open>STEPMAX\<close> or more returns
  \<^verbatim>\<open>isdone = -1\<close> and leaves \<^verbatim>\<open>isdone = -1\<close> in the object, whatever the convergence test of the
  strategy gave: the test of \<^verbatim>\<open>STEPMAX\<close> comes last. In the witness the trial satisfies
  the Backtrack test, and the same call returns 1 under \<^verbatim>\<open>STEPMAX = 10\<close> and -1 under
  \<^verbatim>\<open>STEPMAX = 1\<close>.
\<close>

theorem stepmax_overrides_convergence:
  assumes "alpha (files self) = Some a" "f_try (files self) = Some v" "\<not> isnan v"
    and "STEPMAX PAR \<le> step_count self + 1"
  shows "isdone (fst (search_status argsort PAR self)) = - 1 \<and>
     snd (search_status argsort PAR self) = Inr (- 1, isbest (fst (search_status argsort PAR self)))"
proof -
  obtain self' where s: "search_status argsort PAR self = (self', Inr (isdone self', isbest self'))"
    and d: "isdone self' =
        (let f = take_idx (map snd (search_history self @ [(a, v)]))
                   (argsort (step_keys (search_history self @ [(a, v)]))) in
         if STEPMAX PAR \<le> step_count self + 1 then - 1
         else if LINESEARCH PAR = ''Fixed'' then
           (if list_ex (\<lambda>u. fl_lt u (f ! 0)) (tl f) \<and> fl_lt (f ! (length f - 2)) (last f)
            then 1 else isdone self)
         else if LINESEARCH PAR = ''Bracket'' \<or> iter self = 1 \<or> restart self then
           (if isbrak self \<noteq> 0 then 1 else isdone self)
         else if LINESEARCH PAR = ''Backtrack'' then
           (if list_ex (\<lambda>u. fl_lt u (f ! 0)) (tl f) then 1 else isdone self)
         else isdone self)"
    using search_status_summary [OF assms(1-3), of argsort PAR] by auto
  have "isdone self' = - 1" using d assms(4) by (simp add: Let_def)
  then show ?thesis using s by simp
qed

theorem stepmax_overrides_convergence_witness:
  "alpha (files B2) = Some (Fin 1) \<and> f_try (files B2) = Some (Fin 8) \<and> \<not> isnan (Fin 8)
   \<and> STEPMAX one_par \<le> step_count B2 + 1
   \<and> snd (search_status stable_argsort default_par B2) = Inr (1, 1)
   \<and> snd (search_status stable_argsort one_par B2) = Inr (- 1, 1)
   \<and> isdone (fst (search_status stable_argsort one_par B2)) = - 1"
proof -
  have h: "alpha (files B2) = Some (Fin 1)" "f_try (files B2) = Some (Fin 8)" "\<not> isnan (Fin 8)"
    "STEPMAX one_par \<le> step_count B2 + 1"
    by (simp_all add: B2_def one_par_def B0_def)
  have e: "snd (search_status stable_argsort default_par B2) = Inr (1, 1)"
    by (simp add: B2_def eval_status)
  have b: "isbest (fst (search_status stable_argsort one_par B2)) = 1"
    by (simp add: B2_def one_par_def eval_status)
  show ?thesis
    using h e b stepmax_overrides_convergence [OF h, of stable_argsort] by simp
qed

text \<open>
  C5, at the input where the code departs from it. From the baseline \<open>(0, 10)\<close> the first
  trial \<open>(1, 5)\<close> is the best so far and sets \<^verbatim>\<open>isbest\<close>; this is the object \<open>K1\<close>, whose
  second trial \<open>(2, 7)\<close> is not below the first. \<^verbatim>\<open>search_status\<close> only ever sets \<^verbatim>\<open>isbest\<close> to
  1, so the second call returns \<^verbatim>\<open>isbest = 1\<close> again.
\<close>

theorem isbest_not_cleared:
  "fst (search_status stable_argsort bracket_par (evaluate (Fin 1) (Fin 5) B0)) = evaluate (Fin 1) (Fin 5) P1
   \<and> evaluate (Fin 2) (Fin 7) (evaluate (Fin 1) (Fin 5) P1) = K1
   \<and> func_vals stable_argsort False (fst (search_status stable_argsort bracket_par K1)) = Inr [Fin 10, Fin 5, Fin 7]
   \<and> \<not> fl_lt (Fin 7) (Fin 5)
   \<and> snd (search_status stable_argsort bracket_par K1) = Inr (0, 1)"
  by (simp add: P1_def K1_def eval_status)

text \<open>
  The baseline comes first in the sorted view when no trial has the step \<open>0\<close>, and under
  the insertion sort.
\<close>

lemma baseline_first:
  assumes "sorts argsort ((Fin 0, f0) # r)" "\<forall>e\<in>set r. fst e \<noteq> Fin 0"
  shows "sorted_view argsort ((Fin 0, f0) # r) ! 0 = (Fin 0, f0)"
proof -
  let ?h = "(Fin 0, f0) # r"
  let ?s = "sorted_view argsort ?h"
  have set: "set ?s = set ?h" using assms(1) by (rule set_sorted_view)
  have len: "length ?s = length ?h" using assms(1) by (rule length_sorted_view)
  have "(Fin 0, f0) \<in> set ?s" using set by simp
  then obtain b where b: "b < length ?s" "?s ! b = (Fin 0, f0)"
    by (auto simp: in_set_conv_nth)
  have "sort_rank (fl_abs (fst (?s ! 0))) \<le> sort_rank (fl_abs (fst (?s ! b)))"
    using b(1) len by (intro sorted_view_ascending assms(1)) simp_all
  then have "fst (?s ! 0) = Fin 0"
    using b(2) by (intro rank_zero) simp
  moreover have "?s ! 0 \<in> set ?h"
    using len set by (metis length_greater_0_conv list.discI nth_mem)
  ultimately show ?thesis
    using assms(2) by auto
qed

lemma sorted_view_stable:
  "sorted_view stable_argsort h = sort_key (\<lambda>e. sort_rank (fl_abs (fst e))) h"
proof -
  let ?kf = "\<lambda>e. fl_abs (fst e)"
  let ?zs = "zip (map ?kf h) [0..<length h]"
  let ?g = "\<lambda>e. h ! snd e"
  have key: "sort_key (\<lambda>e. sort_rank (fst e)) ?zs = sort_key (\<lambda>e. sort_rank (?kf (?g e))) ?zs"
  proof (rule sort_key_cong_set)
    fix y assume "y \<in> set ?zs"
    then obtain i where "i < length h" "y = (?kf (h ! i), i)"
      by (auto simp: set_zip)
    then show "sort_rank (fst y) = sort_rank (?kf (h ! snd y))" by simp
  qed
  have "map ?g ?zs = h"
    by (rule nth_equalityI) simp_all
  then have "map ?g (sort_key (\<lambda>e. sort_rank (?kf (?g e))) ?zs) = sort_key (\<lambda>e. sort_rank (?kf e)) h"
    using map_sort_key [of ?g "\<lambda>e. sort_rank (?kf e)" ?zs] by simp
  then show ?thesis
    by (simp add: sorted_view_def step_keys_def take_idx_def stable_argsort_def key comp_def)
qed

lemma stable_baseline_first: "sorted_view stable_argsort ((Fin 0, f0) # r) ! 0 = (Fin 0, f0)"
proof -
  have "sort_rank (fl_abs (Fin 0)) \<le> sort_rank (fl_abs x)" for x
    by (cases x) simp_all
  then show ?thesis
    by (simp add: sorted_view_stable insort_is_Cons)
qed

lemma sorted_view_rest:
  assumes "sorts argsort (e # r)" "sorted_view argsort (e # r) ! 0 = e"
  shows "\<exists>s. sorted_view argsort (e # r) = e # s \<and> set s = set r"
proof -
  let ?s = "sorted_view argsort (e # r)"
  have m: "mset ?s = mset (e # r)" using assms(1) by (rule sorted_view_mset)
  then have "?s \<noteq> []" by auto
  then have s: "?s = e # tl ?s"
    using assms(2) by (cases ?s) simp_all
  then have "mset (e # tl ?s) = mset (e # r)" using m by simp
  then have "mset (tl ?s) = mset r" by simp
  then have "set (tl ?s) = set r" by (rule mset_eq_setD)
  with s show ?thesis by blast
qed

text \<open>
  C4, amended. Let \<^verbatim>\<open>argsort\<close> return a sorting permutation of the keys of the history with
  the new trial, and let the baseline come first in the sorted view. Let the strategy
  not be Fixed and let it be Bracket, or the iteration be 1, or the restart flag be
  set; let the history start with the baseline \<open>(0, f0)\<close> and the trial be read with an
  objective that is not \<open>NaN\<close>. If \<^verbatim>\<open>isbrak\<close> was set before the call, the call leaves
  \<^verbatim>\<open>isdone = 1\<close>, or \<^verbatim>\<open>isdone = -1\<close> when it brings \<^verbatim>\<open>step_count\<close> to \<^verbatim>\<open>STEPMAX\<close>, whatever the new
  objective. If \<^verbatim>\<open>isbrak\<close> was not set, the call sets it exactly when some entry of the
  history other than the baseline, the new trial included, is strictly below \<open>f0\<close> and the
  last two values of the sorted view satisfy \<^verbatim>\<open>f[-2] < f[-1]\<close>.
\<close>

theorem bracket_status:
  assumes "alpha (files self) = Some a" "f_try (files self) = Some v" "\<not> isnan v"
    and "LINESEARCH PAR \<noteq> ''Fixed''"
    and "LINESEARCH PAR = ''Bracket'' \<or> iter self = 1 \<or> restart self"
    and "search_history self = (Fin 0, f0) # ts"
    and "sorts argsort (search_history self @ [(a, v)])"
    and "sorted_view argsort (search_history self @ [(a, v)]) ! 0 = (Fin 0, f0)"
  shows "\<exists>f. func_vals argsort True (fst (search_status argsort PAR self)) = Inr f \<and>
     (isbrak self \<noteq> 0 \<longrightarrow>
        isdone (fst (search_status argsort PAR self)) =
          (if STEPMAX PAR \<le> step_count self + 1 then - 1 else 1)) \<and>
     (isbrak self = 0 \<longrightarrow>
        (isbrak (fst (search_status argsort PAR self)) \<noteq> 0) =
        ((\<exists>e\<in>set (ts @ [(a, v)]). fl_lt (snd e) f0) \<and> fl_lt (f ! (length f - 2)) (f ! (length f - 1))))"
proof -
  let ?h = "search_history self @ [(a, v)]"
  let ?f = "take_idx (map snd ?h) (argsort (step_keys ?h))"
  obtain self' where s: "search_status argsort PAR self = (self', Inr (isdone self', isbest self'))"
    and h: "search_history self' = ?h"
    and d: "isdone self' =
        (let f = ?f in
         if STEPMAX PAR \<le> step_count self + 1 then - 1
         else if LINESEARCH PAR = ''Fixed'' then
           (if list_ex (\<lambda>u. fl_lt u (f ! 0)) (tl f) \<and> fl_lt (f ! (length f - 2)) (last f)
            then 1 else isdone self)
         else if LINESEARCH PAR = ''Bracket'' \<or> iter self = 1 \<or> restart self then
           (if isbrak self \<noteq> 0 then 1 else isdone self)
         else if LINESEARCH PAR = ''Backtrack'' then
           (if list_ex (\<lambda>u. fl_lt u (f ! 0)) (tl f) then 1 else isdone self)
         else isdone self)"
    and b: "isbrak self' =
        (let f = ?f in
         if LINESEARCH PAR \<noteq> ''Fixed'' \<and>
            (LINESEARCH PAR = ''Bracket'' \<or> iter self = 1 \<or> restart self) \<and> isbrak self = 0 \<and>
            list_ex (\<lambda>u. fl_lt u (f ! 0)) (tl f) \<and> fl_lt (f ! (length f - 2)) (last f)
         then 1 else isbrak self)"
    using search_status_summary [OF assms(1-3), of argsort PAR] by auto
  define f where "f = ?f"
  have ne: "search_history self' \<noteq> []" by (simp add: h)
  have sh: "sorts argsort (search_history self')" using assms(7) by (simp add: h)
  have "\<forall>i\<in>set (argsort (step_keys ?h)). i < length ?h"
    using sorts_indices(2) [OF assms(7)] by simp
  then have "?f = map snd (sorted_view argsort ?h)"
    unfolding sorted_view_def by (rule take_idx_map)
  then have fv: "map snd (sorted_view argsort ?h) = f"
    by (simp only: f_def)
  have view: "func_vals argsort True self' = Inr f"
    using sorted_views(2) [OF ne sh] unfolding h fv .
  have hh: "?h = (Fin 0, f0) # (ts @ [(a, v)])" by (simp add: assms(6))
  obtain r where r: "sorted_view argsort ?h = (Fin 0, f0) # r" "set r = set (ts @ [(a, v)])"
    using sorted_view_rest [of argsort "(Fin 0, f0)" "ts @ [(a, v)]"] assms(7,8) unfolding hh
    by blast
  have f: "f = f0 # map snd r"
    unfolding fv [symmetric] r(1) by simp
  have hd: "f ! 0 = f0" and tl: "tl f = map snd r"
    by (simp_all add: f)
  have "f \<noteq> []" by (simp add: f)
  then have last: "last f = f ! (length f - 1)" by (rule last_conv_nth)
  have ex: "list_ex P (map snd r) = (\<exists>e\<in>set (ts @ [(a, v)]). P (snd e))" for P
    by (simp add: list_ex_iff r(2) del: set_append)
  have dn: "isdone self' = (if STEPMAX PAR \<le> step_count self + 1 then - 1 else 1)" if "isbrak self \<noteq> 0"
    using d that assms(4,5) by (simp add: Let_def)
  have brak: "(isbrak self' \<noteq> 0) =
        ((\<exists>e\<in>set (ts @ [(a, v)]). fl_lt (snd e) f0) \<and> fl_lt (f ! (length f - 2)) (f ! (length f - 1)))"
    if "isbrak self = 0"
    unfolding b Let_def f_def [symmetric] hd tl last ex using that assms(4,5) by auto
  show ?thesis
    using view dn brak by (auto simp: s)
qed

theorem bracket_status_witness:
  "alpha (files K1) = Some (Fin 2) \<and> f_try (files K1) = Some (Fin 7) \<and> \<not> isnan (Fin 7)
   \<and> LINESEARCH bracket_par \<noteq> ''Fixed''
   \<and> (LINESEARCH bracket_par = ''Bracket'' \<or> iter K1 = 1 \<or> restart K1)
   \<and> search_history K1 = (Fin 0, Fin 10) # [(Fin 1, Fin 5)]
   \<and> sorts stable_argsort (search_history K1 @ [(Fin 2, Fin 7)])
   \<and> sorted_view stable_argsort (search_history K1 @ [(Fin 2, Fin 7)]) ! 0 = (Fin 0, Fin 10)
   \<and> isbrak K1 = 0
   \<and> func_vals stable_argsort True (fst (search_status stable_argsort bracket_par K1)) = Inr [Fin 10, Fin 5, Fin 7]
   \<and> isbrak (fst (search_status stable_argsort bracket_par K1)) = 1
   \<and> (\<exists>f. func_vals stable_argsort True (fst (search_status stable_argsort bracket_par K1)) = Inr f \<and>
       (isbrak K1 \<noteq> 0 \<longrightarrow>
          isdone (fst (search_status stable_argsort bracket_par K1)) =
            (if STEPMAX bracket_par \<le> step_count K1 + 1 then - 1 else 1)) \<and>
       (isbrak K1 = 0 \<longrightarrow>
          (isbrak (fst (search_status stable_argsort bracket_par K1)) \<noteq> 0) =
          ((\<exists>e\<in>set ([(Fin 1, Fin 5)] @ [(Fin 2, Fin 7)]). fl_lt (snd e) (Fin 10)) \<and>
           fl_lt (f ! (length f - 2)) (f ! (length f - 1)))))"
proof -
  have h: "alpha (files K1) = Some (Fin 2)" "f_try (files K1) = Some (Fin 7)" "\<not> isnan (Fin 7)"
    "LINESEARCH bracket_par \<noteq> ''Fixed''"
    "LINESEARCH bracket_par = ''Bracket'' \<or> iter K1 = 1 \<or> restart K1"
    "search_history K1 = (Fin 0, Fin 10) # [(Fin 1, Fin 5)]"
    "sorts stable_argsort (search_history K1 @ [(Fin 2, Fin 7)])"
    "sorted_view stable_argsort (search_history K1 @ [(Fin 2, Fin 7)]) ! 0 = (Fin 0, Fin 10)"
    by (simp_all add: K1_def B0_def bracket_par_def default_par_def sorts_stable
        stable_baseline_first)
  have e: "isbrak K1 = 0"
    "func_vals stable_argsort True (fst (search_status stable_argsort bracket_par K1)) = Inr [Fin 10, Fin 5, Fin 7]"
    "isbrak (fst (search_status stable_argsort bracket_par K1)) = 1"
    by (simp_all add: K1_def eval_status)
  show ?thesis
    using h e bracket_status [OF h] by blast
qed

lemma K1_reached:
  "fst (search_status stable_argsort fixed_par (evaluate (Fin 1) (Fin 5) B0)) = evaluate (Fin 1) (Fin 5) P1"
  "fst (search_status stable_argsort three_par (evaluate (Fin 1) (Fin 5) B0)) = evaluate (Fin 1) (Fin 5) P1"
  "evaluate (Fin 2) (Fin 7) (evaluate (Fin 1) (Fin 5) P1) = K1"
  by (simp_all add: P1_def K1_def eval_status three_par_def)

lemma K2_reached:
  "evaluate (Fin (3/2)) (Fin 4) (fst (search_status stable_argsort three_par K1)) = K2"
  by (simp add: K1_def K2_def eval_status three_par_def)

text \<open>
  C4 as stated fails twice. Under the Fixed strategy at iteration 1 the Fixed branch is
  taken: from \<open>K1\<close> the test of the claim holds on the sorted view \<open>[10, 5, 7]\<close> and \<^verbatim>\<open>isbrak\<close>
  stays 0. Under Bracket with \<^verbatim>\<open>STEPMAX = 3\<close> the third call finds \<^verbatim>\<open>isbrak\<close> set and returns
  \<^verbatim>\<open>isdone = -1\<close>, not 1.
\<close>

theorem bracket_claim_counterexample:
  "iter K1 = 1 \<and> isbrak K1 = 0
   \<and> func_vals stable_argsort True (fst (search_status stable_argsort fixed_par K1)) = Inr [Fin 10, Fin 5, Fin 7]
   \<and> fl_lt (Fin 5) (Fin 10) \<and> fl_lt (Fin 5) (Fin 7)
   \<and> isbrak (fst (search_status stable_argsort fixed_par K1)) = 0
   \<and> LINESEARCH three_par = ''Bracket'' \<and> isbrak K2 = 1
   \<and> snd (search_status stable_argsort three_par K2) = Inr (- 1, 1)"
  by (simp add: K1_def K2_def eval_status three_par_def)

subsection \<open>Restarts\<close>

lemma keeps_attempt:
  "keeps s0 self \<Longrightarrow> (\<And>v. keeps s0 (fst (k v))) \<Longrightarrow> keeps s0 (fst (attempt r self k))"
  by (cases r) (simp_all add: attempt_def)

lemma keeps_Let_state:
  "keeps s0 a \<Longrightarrow> (\<And>x. keeps s0 x \<Longrightarrow> keeps s0 (fst (f x))) \<Longrightarrow> keeps s0 (fst (Let a f))"
  for a :: base
  by simp

lemma keeps_Let_val:
  "(\<And>x. keeps s0 (fst (f x))) \<Longrightarrow> keeps s0 (fst (Let a f))"
  by simp

lemma keeps_updates [simp]:
  "keeps s0 s \<Longrightarrow> keeps s0 (s\<lparr>files := st\<rparr>)"
  "keeps s0 s \<Longrightarrow> keeps s0 (s\<lparr>stepwriter := w\<rparr>)"
  "keeps s0 s \<Longrightarrow> keeps s0 (s\<lparr>search_history := h\<rparr>)"
  "keeps s0 s \<Longrightarrow> keeps s0 (s\<lparr>step_count := c\<rparr>)"
  "keeps s0 s \<Longrightarrow> keeps s0 (s\<lparr>isdone := d\<rparr>)"
  "keeps s0 s \<Longrightarrow> keeps s0 (s\<lparr>isbest := b\<rparr>)"
  "keeps s0 s \<Longrightarrow> keeps s0 (s\<lparr>isbrak := k\<rparr>)"
  "keeps s0 s \<Longrightarrow> keeps s0 (s\<lparr>iter := n\<rparr>)"
  by (simp_all add: keeps_def)

lemma keeps_refl [simp]: "keeps s s"
  by (simp add: keeps_def)

lemma finalize_search_keeps: "keeps self (fst (finalize_search argsort PAR self))"
  unfolding finalize_search_def
  by (intro keeps_attempt keeps_Let_state keeps_Let_val) simp_all

lemma initialize_search_keeps: "keeps self (fst (initialize_search PAR self))"
  unfolding initialize_search_def
  by (intro keeps_attempt keeps_Let_state keeps_Let_val) simp_all

lemma search_status_keeps: "keeps self (fst (search_status argsort PAR self))"
  unfolding search_status_def
  by (intro keeps_attempt keeps_Let_state keeps_Let_val) simp_all

lemma compute_direction_count:
  assumes "no_alg_no_restart PAR self"
  shows "restart_count (fst (compute_direction PAR alg self)) =
           restart_count self + (if reports_restart PAR self (ComputeDirection alg) then 1 else 0)
         \<and> no_alg_no_restart PAR (fst (compute_direction PAR alg self))"
proof (cases "g_new (files self)")
  case None
  then show ?thesis using assms by (simp add: compute_direction_def)
next
  case (Some g)
  show ?thesis
  proof (cases alg)
    case (Inl e)
    then show ?thesis using assms Some
      by (auto simp: compute_direction_def no_alg_no_restart_def bind_err_def np_dot_def Let_def)
  next
    case (Inr pr)
    obtain p r where pr: "pr = (p, r)" by (cases pr)
    show ?thesis using assms Some Inr pr
      by (auto simp: compute_direction_def no_alg_no_restart_def bind_err_def np_dot_def Let_def)
  qed
qed

lemma perform_count:
  assumes "no_alg_no_restart PAR self"
  shows "restart_count (perform argsort PAR self c) =
           restart_count self + (if reports_restart PAR self c then 1 else 0)
         \<and> no_alg_no_restart PAR (perform argsort PAR self c)"
proof (cases c)
  case (ComputeDirection alg)
  then show ?thesis using compute_direction_count [OF assms] by simp
next
  case InitializeSearch
  then show ?thesis using assms initialize_search_keeps [of self PAR]
    by (simp add: keeps_def no_alg_no_restart_def)
next
  case SearchStatus
  then show ?thesis using assms search_status_keeps [of self argsort PAR]
    by (simp add: keeps_def no_alg_no_restart_def)
next
  case FinalizeSearch
  then show ?thesis using assms finalize_search_keeps [of self argsort PAR]
    by (simp add: keeps_def no_alg_no_restart_def)
next
  case (External st n)
  then show ?thesis using assms by (simp add: no_alg_no_restart_def)
qed

lemma run_count:
  "no_alg_no_restart PAR self \<Longrightarrow>
   restart_count (run argsort PAR self cs) = restart_count self + int (restarts argsort PAR self cs)
   \<and> no_alg_no_restart PAR (run argsort PAR self cs)"
proof (induction cs arbitrary: self)
  case Nil
  then show ?case by simp
next
  case (Cons c cs)
  have p: "restart_count (perform argsort PAR self c) =
           restart_count self + (if reports_restart PAR self c then 1 else 0)"
    "no_alg_no_restart PAR (perform argsort PAR self c)"
    using perform_count [OF Cons.prems, of argsort c] by simp_all
  show ?case using Cons.IH [OF p(2)] p(1) by simp
qed

lemma run_append: "run argsort PAR self (cs @ cs') = run argsort PAR (run argsort PAR self cs) cs'"
  by (induction cs arbitrary: self) simp_all

text \<open>
  C7. A run is \<^verbatim>\<open>setup\<close> followed by any calls of the optimizer's methods and any changes
  of the files and of \<^verbatim>\<open>iter\<close> by the caller. \<^verbatim>\<open>restart_count\<close> is 0 after \<^verbatim>\<open>setup\<close>; after any
  run it is the number of calls of \<^verbatim>\<open>compute_direction\<close> in which the direction algorithm
  was called and returned \<^verbatim>\<open>restart\<close> true; it never decreases when the run goes on; and
  each single call adds 1 exactly when it is such a call and adds nothing otherwise.
\<close>

theorem restart_count_run:
  "restart_count (setup_base self) = 0
   \<and> restart_count (run argsort PAR (setup_base self) cs) = int (restarts argsort PAR (setup_base self) cs)
   \<and> restart_count (run argsort PAR (setup_base self) cs) \<le> restart_count (run argsort PAR (setup_base self) (cs @ cs'))
   \<and> restart_count (perform argsort PAR (run argsort PAR (setup_base self) cs) c) =
        restart_count (run argsort PAR (setup_base self) cs) +
        (if reports_restart PAR (run argsort PAR (setup_base self) cs) c then 1 else 0)"
proof -
  have i: "no_alg_no_restart PAR (setup_base self)"
    by (simp add: no_alg_no_restart_def setup_base_def)
  have z: "restart_count (setup_base self) = 0"
    by (simp add: setup_base_def)
  have r: "restart_count (run argsort PAR (setup_base self) cs) = int (restarts argsort PAR (setup_base self) cs)"
    "no_alg_no_restart PAR (run argsort PAR (setup_base self) cs)"
    using run_count [OF i, of argsort cs] z by simp_all
  have "restart_count (run argsort PAR (run argsort PAR (setup_base self) cs) cs') =
        restart_count (run argsort PAR (setup_base self) cs) + int (restarts argsort PAR (run argsort PAR (setup_base self) cs) cs')"
    using run_count [OF r(2), of argsort cs'] by simp
  then have m: "restart_count (run argsort PAR (setup_base self) cs) \<le> restart_count (run argsort PAR (setup_base self) (cs @ cs'))"
    by (simp add: run_append)
  show ?thesis
    using z r(1) m perform_count [OF r(2), of argsort c] by simp
qed

subsection \<open>The initial step\<close>

lemma step_init_value:
  assumes "alpha (files self) = Some a0" "s_new (files self) = Some sn" "s_old (files self) = Some so"
    and "so \<noteq> Fin 0"
  shows "step_init self = Inr (fl_mul (fl_mul (Fin 2) (np_div sn so)) a0)"
  using assms by (simp add: step_init_def bind_err_def py_div_def)

lemma initialize_search_first:
  assumes "m_new (files self) = Some m" "p_new (files self) = Some p" "f_new (files self) = Some f"
    and "py_max (map fl_abs m) = Inr norm_m" "py_max (map fl_abs p) = Inr norm_p"
    and "length m = length p" and "iter self = 1 \<or> restart self"
  shows "snd (initialize_search PAR self) = Inr () \<and>
     alpha (files (fst (initialize_search PAR self))) =
       Some (adjust_step PAR (iter self) (np_div norm_m norm_p)
              (fl_mul (np_div norm_m norm_p) (STEPINIT PAR)))"
  using assms
  by (auto simp: initialize_search_def adjust_step_def Let_def arr_add_same_length split: option.splits)

lemma initialize_search_backtrack:
  assumes "m_new (files self) = Some m" "p_new (files self) = Some p" "f_new (files self) = Some f"
    and "py_max (map fl_abs m) = Inr norm_m" "py_max (map fl_abs p) = Inr norm_p"
    and "length m = length p" and "iter self \<noteq> 1" "\<not> restart self" "LINESEARCH PAR = ''Backtrack''"
  shows "snd (initialize_search PAR self) = Inr () \<and>
     alpha (files (fst (initialize_search PAR self))) =
       Some (adjust_step PAR (iter self) (np_div norm_m norm_p) (Fin 1))"
  using assms
  by (auto simp: initialize_search_def adjust_step_def Let_def arr_add_same_length split: option.splits)

lemma initialize_search_continue:
  assumes "m_new (files self) = Some m" "p_new (files self) = Some p" "f_new (files self) = Some f"
    and "py_max (map fl_abs m) = Inr norm_m" "py_max (map fl_abs p) = Inr norm_p"
    and "length m = length p" and "iter self \<noteq> 1" "\<not> restart self" "LINESEARCH PAR \<noteq> ''Backtrack''"
    and "alpha (files self) = Some a0" "s_new (files self) = Some sn" "s_old (files self) = Some so"
    and "so \<noteq> Fin 0"
  shows "snd (initialize_search PAR self) = Inr () \<and>
     alpha (files (fst (initialize_search PAR self))) =
       Some (adjust_step PAR (iter self) (np_div norm_m norm_p)
              (fl_mul (fl_mul (Fin 2) (np_div sn so)) a0))"
proof -
  have "step_init (self\<lparr>search_history := [(Fin 0, f)], step_count := 0,
                      isdone := 0, isbest := 0, isbrak := 0\<rparr>) =
        Inr (fl_mul (fl_mul (Fin 2) (np_div sn so)) a0)"
    using assms(10-13) by (intro step_init_value) simp_all
  then show ?thesis
    using assms(1-9)
    by (auto simp: initialize_search_def adjust_step_def Let_def arr_add_same_length split: option.splits)
qed

lemma adjust_step_default:
  "STEPOVERSHOOT PAR = Fin 0 \<Longrightarrow> STEPTHRESH PAR = None \<Longrightarrow> adjust_step PAR it r a = a"
  by (simp add: adjust_step_def truthy_def)

text \<open>
  C6. With \<^verbatim>\<open>m_new\<close>, \<^verbatim>\<open>p_new\<close> (of one length, not empty) and \<^verbatim>\<open>f_new\<close> in the store, and, when
  \<^verbatim>\<open>step_init\<close> is reached, its three scalars in the store with \<^verbatim>\<open>s_old\<close> not zero,
  \<^verbatim>\<open>initialize_search\<close> returns and chooses the step \<open>a\<close>: \<open>p_ratio * STEPINIT\<close> when the iteration
  is 1 or the restart flag is set, else 1 when the strategy is Backtrack, else
  \<open>2 * (s_new / s_old) * alpha\<close> with the previous \<^verbatim>\<open>alpha\<close>, where \<open>p_ratio\<close> is
  \<open>max |m_new| / max |p_new|\<close>. It writes to \<^verbatim>\<open>alpha\<close> this step after the two optional
  adjustments, which is \<open>a\<close> itself under the default \<^verbatim>\<open>STEPOVERSHOOT\<close> and \<^verbatim>\<open>STEPTHRESH\<close>.
\<close>

theorem initialize_search_step:
  assumes "m_new (files self) = Some m" "p_new (files self) = Some p" "f_new (files self) = Some f"
    and "py_max (map fl_abs m) = Inr norm_m" "py_max (map fl_abs p) = Inr norm_p"
    and "length m = length p"
    and "iter self \<noteq> 1 \<and> \<not> restart self \<and> LINESEARCH PAR \<noteq> ''Backtrack'' \<longrightarrow>
         alpha (files self) = Some a0 \<and> s_new (files self) = Some sn \<and>
         s_old (files self) = Some so \<and> so \<noteq> Fin 0"
  shows "\<exists>a. (if iter self = 1 \<or> restart self then a = fl_mul (np_div norm_m norm_p) (STEPINIT PAR)
          else if LINESEARCH PAR = ''Backtrack'' then a = Fin 1
          else a = fl_mul (fl_mul (Fin 2) (np_div sn so)) a0)
     \<and> snd (initialize_search PAR self) = Inr ()
     \<and> alpha (files (fst (initialize_search PAR self))) =
         Some (adjust_step PAR (iter self) (np_div norm_m norm_p) a)
     \<and> (STEPOVERSHOOT PAR = Fin 0 \<and> STEPTHRESH PAR = None \<longrightarrow>
         alpha (files (fst (initialize_search PAR self))) = Some a)"
proof -
  consider (first) "iter self = 1 \<or> restart self"
    | (backtrack) "iter self \<noteq> 1" "\<not> restart self" "LINESEARCH PAR = ''Backtrack''"
    | (continue) "iter self \<noteq> 1" "\<not> restart self" "LINESEARCH PAR \<noteq> ''Backtrack''"
    by blast
  then show ?thesis
  proof cases
    case first
    then show ?thesis
      using initialize_search_first [OF assms(1-6) first, of PAR]
      by (auto simp: adjust_step_default)
  next
    case backtrack
    then show ?thesis
      using initialize_search_backtrack [OF assms(1-6) backtrack]
      by (auto simp: adjust_step_default)
  next
    case continue
    then have s: "alpha (files self) = Some a0" "s_new (files self) = Some sn"
      "s_old (files self) = Some so" "so \<noteq> Fin 0"
      using assms(7) by simp_all
    show ?thesis
      using initialize_search_continue [OF assms(1-6) continue s] continue
      by (auto simp: adjust_step_default)
  qed
qed

theorem initialize_search_step_witness:
  "m_new (files W2) = Some [Fin 1, Fin 2] \<and> p_new (files W2) = Some [Fin 1, Fin (- 1)]
   \<and> f_new (files W2) = Some (Fin 10)
   \<and> py_max (map fl_abs [Fin 1, Fin 2]) = Inr (Fin 2)
   \<and> py_max (map fl_abs [Fin 1, Fin (- 1)]) = Inr (Fin 1)
   \<and> length [Fin 1, Fin 2] = length [Fin 1, Fin (- 1)]
   \<and> iter W2 \<noteq> 1 \<and> \<not> restart W2 \<and> LINESEARCH bracket_par \<noteq> ''Backtrack''
   \<and> alpha (files W2) = Some (Fin (2/5)) \<and> s_new (files W2) = Some (Fin (- 2))
   \<and> s_old (files W2) = Some (Fin (- 4)) \<and> Fin (- 4) \<noteq> Fin 0
   \<and> STEPOVERSHOOT bracket_par = Fin 0 \<and> STEPTHRESH bracket_par = None
   \<and> snd (initialize_search bracket_par W2) = Inr ()
   \<and> alpha (files (fst (initialize_search bracket_par W2))) = Some (Fin (2/5))"
proof -
  have h: "m_new (files W2) = Some [Fin 1, Fin 2]" "p_new (files W2) = Some [Fin 1, Fin (- 1)]"
    "f_new (files W2) = Some (Fin 10)"
    "py_max (map fl_abs [Fin 1, Fin 2]) = Inr (Fin 2)"
    "py_max (map fl_abs [Fin 1, Fin (- 1)]) = Inr (Fin 1)"
    "length [Fin 1, Fin 2] = length [Fin 1, Fin (- 1)]"
    by (simp_all add: W2_def R0_def example_files_def)
  have c: "iter W2 \<noteq> 1" "\<not> restart W2" "LINESEARCH bracket_par \<noteq> ''Backtrack''"
    "alpha (files W2) = Some (Fin (2/5))" "s_new (files W2) = Some (Fin (- 2))"
    "s_old (files W2) = Some (Fin (- 4))" "Fin (- 4) \<noteq> Fin 0"
    "STEPOVERSHOOT bracket_par = Fin 0" "STEPTHRESH bracket_par = None"
    by (simp_all add: W2_def R0_def example_files_def bracket_par_def default_par_def)
  have "iter W2 \<noteq> 1 \<and> \<not> restart W2 \<and> LINESEARCH bracket_par \<noteq> ''Backtrack'' \<longrightarrow>
         alpha (files W2) = Some (Fin (2/5)) \<and> s_new (files W2) = Some (Fin (- 2)) \<and>
         s_old (files W2) = Some (Fin (- 4)) \<and> Fin (- 4) \<noteq> Fin 0"
    using c by simp
  from initialize_search_step [OF h this, of ]
  have "snd (initialize_search bracket_par W2) = Inr ()
     \<and> alpha (files (fst (initialize_search bracket_par W2))) = Some (Fin (2/5))"
    using c by auto
  then show ?thesis using h c by simp
qed

theorem restart_count_run_witness:
  "restarts stable_argsort bracket_par (setup_base R0) direction_calls = 2
   \<and> restart_count (run stable_argsort bracket_par (setup_base R0) direction_calls) = 2"
proof -
  have "restarts stable_argsort bracket_par (setup_base R0) direction_calls = 2"
    by (simp add: direction_calls_def setup_base_def R0_def example_files_def bracket_par_def
        default_par_def compute_direction_def initialize_search_def bind_err_def np_dot_def Let_def
        truthy_def arr_add_def arr_scale_def)
  then show ?thesis
    using restart_count_run [of R0 stable_argsort bracket_par direction_calls] by simp
qed

end
